theory Spec2Isabelle
  imports Complex_Main
begin

section \<open>Strings\<close>

text \<open>
  A JavaScript string is a sequence of UTF-16 code units; \<open>length\<close>, \<open>substring\<close>,
  indexing and the regular expressions used here all count code units. A code unit is
  modelled by its number, a string by the list of its code units.
\<close>

type_synonym jschar = nat
type_synonym jsstring = "jschar list"

definition substring :: "jsstring \<Rightarrow> nat \<Rightarrow> nat \<Rightarrow> jsstring" where
  \<comment> \<open>\<open>s.substring(a, b)\<close> for \<open>0 \<le> a \<le> b\<close>\<close>
  "substring s a b = drop a (take b s)"

definition substringFrom :: "jsstring \<Rightarrow> nat \<Rightarrow> jsstring" where
  \<comment> \<open>\<open>s.substring(a)\<close>\<close>
  "substringFrom s a = drop a s"

definition NEWLINE :: jschar where
  "NEWLINE = 10"

definition IDEOGRAPHIC_SPACE :: jschar where
  \<comment> \<open>U+3000, the full-width space used as paragraph indent\<close>
  "IDEOGRAPHIC_SPACE = 12288"

section \<open>TextMeasurer (lib/utils/text-measurement.ts)\<close>

text \<open>
  The measurer's fields are JavaScript numbers; they are modelled as rationals, and
  \<open>Math.floor\<close> as \<open>floor\<close>. The hidden DOM element enters \<open>getPageCapacity\<close> only
  through \<open>getCharacterWidth\<close>, which reads the rendered width of a fixed test text of
  15 code units; that reading is the field \<open>testTextWidth\<close> (\<open>None\<close> when the element
  could not be created). Two things are not modelled. The source computes in double
  precision, the model exactly: a quotient that is a whole number in the model can fall
  just below it in the source (a container 23 px wide with a test text 23 px wide has 15
  characters per line here and 14 there). A character width or a line height of 0 px
  makes the source divide by zero and continue with \<open>Infinity\<close> or \<open>NaN\<close>; such
  measurers are outside the model, in which a quotient by 0 is 0. The statements below
  use of the capacity only whether it is positive and, for invalid container sizes, the
  value 0 that the guard of \<open>getPageCapacity\<close> returns before any arithmetic.
\<close>

record TextMeasurer =
  containerWidth :: rat
  containerHeight :: rat
  fontSize :: rat
  lineHeight :: rat
  testTextWidth :: "rat option"

record PageCapacity =
  charactersPerLine :: int
  linesPerPage :: int
  totalCharacters :: int

definition getCharacterWidth :: "TextMeasurer \<Rightarrow> rat" where
  "getCharacterWidth tm =
     (case testTextWidth tm of
        None \<Rightarrow> fontSize tm * (6 / 10)
      | Some width \<Rightarrow> width / 15)"

definition getPageCapacity :: "TextMeasurer \<Rightarrow> PageCapacity" where
  "getPageCapacity tm =
     (if containerWidth tm \<le> 0 \<or> containerHeight tm \<le> 0 then
        \<lparr>charactersPerLine = 0, linesPerPage = 0, totalCharacters = 0\<rparr>
      else
        let lineHeightPx = fontSize tm * lineHeight tm;
            lpp = max 0 \<lfloor>containerHeight tm / lineHeightPx\<rfloor>;
            characterWidth = getCharacterWidth tm;
            cpl = max 0 \<lfloor>containerWidth tm / characterWidth\<rfloor>
        in \<lparr>charactersPerLine = cpl, linesPerPage = lpp, totalCharacters = cpl * lpp\<rparr>)"

definition isWhiteSpace :: "jschar \<Rightarrow> bool" where
  \<comment> \<open>the class \<open>\s\<close> of a regular expression\<close>
  "isWhiteSpace c =
     ((9 \<le> c \<and> c \<le> 13) \<or> c = 32 \<or> c = 160 \<or> c = 5760 \<or> (8192 \<le> c \<and> c \<le> 8202)
      \<or> c = 8232 \<or> c = 8233 \<or> c = 8239 \<or> c = 8287 \<or> c = 12288 \<or> c = 65279)"

definition punctuation :: "jschar \<Rightarrow> bool" where
  \<comment> \<open>the character class of \<open>fitTextToPage\<close>: U+3002, U+FF01, U+FF1F, newline, \<open>\s\<close>\<close>
  "punctuation c = (c = 12290 \<or> c = 65281 \<or> c = 65311 \<or> c = 10 \<or> isWhiteSpace c)"

definition punctuationAt :: "jsstring \<Rightarrow> nat \<Rightarrow> bool" where
  \<comment> \<open>\<open>punctuation.test(text[i])\<close>; past the end \<open>text[i]\<close> is \<open>undefined\<close>, which does not match\<close>
  "punctuationAt text i = (i < length text \<and> punctuation (text ! i))"

text \<open>
  The backward scan \<open>for (i = cutPoint; i > cutPoint * 0.7 && i > 0; i--)\<close>. It yields the
  new value of \<open>lastGoodCut\<close> when a character of the class is met, \<open>None\<close> when the loop
  runs out. The bound is taken exactly: \<open>i > cutPoint * 0.7\<close> is \<open>10 * i > 7 * cutPoint\<close>.
  The source computes the product in double precision, where for some multiples of 10
  (90 is the first) it falls just below the whole number and the scan reaches one index
  further. The statements about \<open>fitTextToPage\<close> below use of the scan only that a cut it
  finds is positive.
\<close>

function scanCut :: "jsstring \<Rightarrow> nat \<Rightarrow> nat \<Rightarrow> nat option" where
  "scanCut text cutPoint i =
     (if 10 * i > 7 * cutPoint \<and> i > 0 then
        (if punctuationAt text i then Some (i + 1) else scanCut text cutPoint (i - 1))
      else None)"
  by pat_completeness auto
termination
  by (relation "measure (\<lambda>(text, cutPoint, i). i)") auto

declare scanCut.simps [simp del]

record FitResult =
  fittedText :: jsstring
  remainingText :: jsstring

definition finalCutPoint :: "int \<Rightarrow> jsstring \<Rightarrow> nat" where
  \<comment> \<open>the cut position of \<open>fitTextToPage\<close> for a text longer than \<open>totalCharacters\<close>;
      \<open>Math.floor(totalCharacters * 0.8)\<close> is \<open>totalCharacters * 8 div 10\<close>\<close>
  "finalCutPoint totalChars text =
     (let safeCharacterCount = max 1 (totalChars * 8 div 10);
          cutPoint = min (nat safeCharacterCount) (length text);
          lastGoodCut = (case scanCut text cutPoint cutPoint of
                           None \<Rightarrow> cutPoint
                         | Some c \<Rightarrow> c)
      in if lastGoodCut > 0 then lastGoodCut else max 1 cutPoint)"

definition fitTextToPage :: "TextMeasurer \<Rightarrow> jsstring \<Rightarrow> FitResult" where
  "fitTextToPage tm text =
     (let cap = getPageCapacity tm in
      if text = [] \<or> totalCharacters cap \<le> 0 \<or> linesPerPage cap \<le> 0 then
        \<lparr>fittedText = [], remainingText = text\<rparr>
      else if int (length text) \<le> totalCharacters cap then
        \<lparr>fittedText = text, remainingText = []\<rparr>
      else
        \<lparr>fittedText = substring text 0 (finalCutPoint (totalCharacters cap) text),
         remainingText = substringFrom text (finalCutPoint (totalCharacters cap) text)\<rparr>)"

section \<open>Books (types/pagination.ts, types/book.ts)\<close>

text \<open>
  Identifiers are JSON integers. The \<open>type\<close> of a block is \<open>'paragraph'\<close> or
  \<open>'conversation'\<close>, as \<open>types/pagination.ts\<close> declares and as the cast in
  \<open>getStructuredBlocks\<close> asserts.
\<close>

datatype BlockType = Paragraph | Conversation

record Block =
  block_id :: int
  block_type :: BlockType
  block_text :: jsstring

record Chapter =
  chapter_id :: int
  chapter_title :: jsstring
  blocks :: "Block list"

record BookContent =
  chapters :: "Chapter list"

section \<open>PaginationCalculator (lib/utils/pagination-calculator.ts)\<close>

record PagePosition =
  pos_chapterId :: int
  pos_blockId :: int
  characterStart :: int
  characterEnd :: int

record Page =
  page_id :: int
  position :: PagePosition
  page_content :: "jsstring list"
  page_totalCharacters :: int

definition pageText :: "Page \<Rightarrow> jsstring" where
  \<comment> \<open>the text of a page: its content entries joined\<close>
  "pageText p = concat (page_content p)"

text \<open>
  \<open>splitLargeBlock\<close>: the \<open>while (remainingText.length > 0)\<close> loop. The pages pushed to
  \<open>this.pages\<close> are appended to \<open>pages\<close>; \<open>chId\<close> and \<open>blId\<close> are \<open>chapter.id\<close> and
  \<open>block.id\<close>. The loop ends because \<open>fitTextToPage\<close> splits its argument, which is
  what the termination proof uses.
\<close>

lemma fitTextToPage_concat:
  "fittedText (fitTextToPage tm text) @ remainingText (fitTextToPage tm text) = text"
  unfolding fitTextToPage_def Let_def substring_def substringFrom_def
  by (simp split: if_splits)

lemma fitTextToPage_remaining_shorter:
  assumes "fittedText (fitTextToPage tm text) \<noteq> []"
  shows "length (remainingText (fitTextToPage tm text)) < length text"
proof -
  have "length (fittedText (fitTextToPage tm text)) + length (remainingText (fitTextToPage tm text))
        = length text"
    using fitTextToPage_concat [of tm "text"] by (metis length_append)
  then show ?thesis using assms by (cases "fittedText (fitTextToPage tm text)") auto
qed

function splitLargeBlockLoop ::
  "TextMeasurer \<Rightarrow> int \<Rightarrow> int \<Rightarrow> jsstring \<Rightarrow> nat \<Rightarrow> int \<Rightarrow> Page list \<Rightarrow> Page list" where
  "splitLargeBlockLoop tm chId blId remaining charStart pageId pages =
     (if length remaining > 0 then
        (if length (fittedText (fitTextToPage tm remaining)) = 0 then
           splitLargeBlockLoop tm chId blId (substringFrom remaining 1) (charStart + 1) (pageId + 1)
             (pages @ [\<lparr>page_id = pageId,
                        position = \<lparr>pos_chapterId = chId, pos_blockId = blId,
                                    characterStart = int charStart,
                                    characterEnd = int charStart + 1\<rparr>,
                        page_content = [take 1 remaining],
                        page_totalCharacters = 1\<rparr>])
         else
           splitLargeBlockLoop tm chId blId (remainingText (fitTextToPage tm remaining))
             (charStart + length (fittedText (fitTextToPage tm remaining))) (pageId + 1)
             (pages @ [\<lparr>page_id = pageId,
                        position = \<lparr>pos_chapterId = chId, pos_blockId = blId,
                                    characterStart = int charStart,
                                    characterEnd = int charStart
                                      + int (length (fittedText (fitTextToPage tm remaining)))\<rparr>,
                        page_content = [fittedText (fitTextToPage tm remaining)],
                        page_totalCharacters = int (length (fittedText (fitTextToPage tm remaining)))\<rparr>]))
      else pages)"
  by pat_completeness auto
termination
  by (relation "measure (\<lambda>(tm, chId, blId, remaining, charStart, pageId, pages). length remaining)")
     (auto simp: substringFrom_def fitTextToPage_remaining_shorter)

declare splitLargeBlockLoop.simps [simp del]

definition splitLargeBlock :: "TextMeasurer \<Rightarrow> Chapter \<Rightarrow> Block \<Rightarrow> int \<Rightarrow> Page list \<Rightarrow> Page list" where
  "splitLargeBlock tm chapter block startPageId pages =
     splitLargeBlockLoop tm (chapter_id chapter) (block_id block) (block_text block) 0 startPageId pages"

text \<open>
  The variables of \<open>calculatePages\<close> that live across the blocks of a chapter:
  \<open>this.pages\<close>, \<open>pageId\<close>, \<open>currentPageContent\<close>, \<open>currentPageCharacterCount\<close> and
  \<open>currentBlockStartIndex\<close>.
\<close>

record CalcState =
  cs_pages :: "Page list"
  cs_pageId :: int
  cs_currentPageContent :: "jsstring list"
  cs_currentPageCharacterCount :: nat
  cs_currentBlockStartIndex :: nat

definition effectiveCapacity :: "TextMeasurer \<Rightarrow> int" where
  "effectiveCapacity tm =
     (if totalCharacters (getPageCapacity tm) > 0 then totalCharacters (getPageCapacity tm) else 1000)"

definition savePage :: "Chapter \<Rightarrow> CalcState \<Rightarrow> Page" where
  \<comment> \<open>the object literal pushed when the current page is saved\<close>
  "savePage chapter st =
     \<lparr>page_id = cs_pageId st,
      position = \<lparr>pos_chapterId = chapter_id chapter,
                  pos_blockId = block_id (blocks chapter ! cs_currentBlockStartIndex st),
                  characterStart = 0,
                  characterEnd = int (cs_currentPageCharacterCount st)\<rparr>,
      page_content = cs_currentPageContent st,
      page_totalCharacters = int (cs_currentPageCharacterCount st)\<rparr>"

definition saveCurrentPage :: "Chapter \<Rightarrow> CalcState \<Rightarrow> CalcState" where
  \<comment> \<open>\<open>if (currentPageContent.length > 0) this.pages.push({id: pageId++, ...})\<close>\<close>
  "saveCurrentPage chapter st =
     (if length (cs_currentPageContent st) > 0
      then st\<lparr>cs_pages := cs_pages st @ [savePage chapter st], cs_pageId := cs_pageId st + 1\<rparr>
      else st)"

definition blockStep :: "TextMeasurer \<Rightarrow> Chapter \<Rightarrow> nat \<Rightarrow> CalcState \<Rightarrow> CalcState" where
  \<comment> \<open>the body of \<open>for (let blockIndex = 0; ...)\<close>\<close>
  "blockStep tm chapter blockIndex st =
     (let block = blocks chapter ! blockIndex;
          tentativeText = concat (cs_currentPageContent st @ [block_text block])
      in if int (length tentativeText) \<le> effectiveCapacity tm then
           st\<lparr>cs_currentPageContent := cs_currentPageContent st @ [block_text block],
              cs_currentPageCharacterCount := cs_currentPageCharacterCount st + length (block_text block)\<rparr>
         else
           let st2 = (saveCurrentPage chapter st)
                       \<lparr>cs_currentPageContent := [block_text block],
                        cs_currentPageCharacterCount := length (block_text block),
                        cs_currentBlockStartIndex := blockIndex\<rparr>
           in if int (length (block_text block)) > effectiveCapacity tm then
                let pages' = splitLargeBlock tm chapter block (cs_pageId st2) (cs_pages st2)
                in st2\<lparr>cs_pages := pages',
                       cs_pageId := int (length pages') + 1,
                       cs_currentPageContent := [],
                       cs_currentPageCharacterCount := 0\<rparr>
              else st2)"

function blockLoop :: "TextMeasurer \<Rightarrow> Chapter \<Rightarrow> nat \<Rightarrow> CalcState \<Rightarrow> CalcState" where
  "blockLoop tm chapter blockIndex st =
     (if blockIndex < length (blocks chapter)
      then blockLoop tm chapter (blockIndex + 1) (blockStep tm chapter blockIndex st)
      else st)"
  by pat_completeness auto
termination
  by (relation "measure (\<lambda>(tm, chapter, blockIndex, st). length (blocks chapter) - blockIndex)") auto

declare blockLoop.simps [simp del]

definition chapterStep :: "TextMeasurer \<Rightarrow> Page list \<times> int \<Rightarrow> Chapter \<Rightarrow> Page list \<times> int" where
  \<comment> \<open>the body of \<open>for (const chapter of this.bookContent.chapters)\<close>, on \<open>(this.pages, pageId)\<close>\<close>
  "chapterStep tm acc chapter =
     (let st0 = \<lparr>cs_pages = fst acc, cs_pageId = snd acc, cs_currentPageContent = [],
                 cs_currentPageCharacterCount = 0, cs_currentBlockStartIndex = 0\<rparr>;
          st = saveCurrentPage chapter (blockLoop tm chapter 0 st0)
      in (cs_pages st, cs_pageId st))"

definition calculatePages :: "TextMeasurer \<Rightarrow> BookContent \<Rightarrow> Page list" where
  "calculatePages tm book = fst (foldl (chapterStep tm) ([], 1) (chapters book))"

text \<open>\<open>findPageByPosition\<close>: the loop over \<open>this.pages\<close>, \<open>i\<close> being the index of the head.\<close>

fun findPageByPositionFrom :: "nat \<Rightarrow> Page list \<Rightarrow> int \<Rightarrow> int \<Rightarrow> int \<Rightarrow> nat" where
  "findPageByPositionFrom i [] chapterId blockId characterPosition = 0"
| "findPageByPositionFrom i (page # rest) chapterId blockId characterPosition =
     (let pos = position page in
      if pos_chapterId pos = chapterId \<and> pos_blockId pos = blockId
         \<and> characterPosition \<ge> characterStart pos \<and> characterPosition < characterEnd pos
      then i
      else findPageByPositionFrom (i + 1) rest chapterId blockId characterPosition)"

definition findPageByPosition :: "Page list \<Rightarrow> int \<Rightarrow> int \<Rightarrow> int \<Rightarrow> nat" where
  "findPageByPosition pages chapterId blockId characterPosition =
     findPageByPositionFrom 0 pages chapterId blockId characterPosition"

section \<open>Content positions (lib/utils/content-position-finder.ts)\<close>

text \<open>
  \<open>PageData\<close> without its \<open>id\<close>: the pagination hook builds the id from the wall clock
  and \<open>Math.random\<close>, and nothing modelled here reads it. An optional field is an
  \<open>option\<close>; \<open>None\<close> is the field being absent or \<open>undefined\<close>.
\<close>

record PageMetadata =
  md_chapterId :: int
  md_blockIds :: "int list"
  startBlockId :: "int option"
  endBlockId :: "int option"
  endBlockCharacterOffset :: "nat option"
  characterRange :: "(int \<times> int) option"

record PageData =
  pd_content :: jsstring
  chapterTitle :: "jsstring option"
  isChapterStart :: "bool option"
  isChapterEnd :: "bool option"
  metadata :: "PageMetadata option"

record ContentPosition =
  chapterId :: int
  blockId :: int
  characterOffset :: int

record FindResult =
  pageIndex :: nat
  page :: PageData
  exactMatch :: bool

definition includesBlockId :: "PageData \<Rightarrow> int \<Rightarrow> bool" where
  \<comment> \<open>\<open>page.metadata?.blockIds?.includes(targetBlockId)\<close>\<close>
  "includesBlockId pg targetBlockId =
     (case metadata pg of None \<Rightarrow> False | Some m \<Rightarrow> targetBlockId \<in> set (md_blockIds m))"

text \<open>\<open>findPageByBlockId\<close>: the loop over \<open>pages\<close>, \<open>i\<close> being the index of the head.\<close>

fun findPageByBlockIdFrom :: "nat \<Rightarrow> PageData list \<Rightarrow> int \<Rightarrow> FindResult option" where
  "findPageByBlockIdFrom i [] targetBlockId = None"
| "findPageByBlockIdFrom i (pg # rest) targetBlockId =
     (if includesBlockId pg targetBlockId
      then Some \<lparr>pageIndex = i, page = pg, exactMatch = True\<rparr>
      else findPageByBlockIdFrom (i + 1) rest targetBlockId)"

definition findPageByBlockId :: "PageData list \<Rightarrow> int \<Rightarrow> FindResult option" where
  "findPageByBlockId pages targetBlockId = findPageByBlockIdFrom 0 pages targetBlockId"

definition getContentPositionFromPage :: "PageData \<Rightarrow> int \<Rightarrow> ContentPosition option" where
  \<comment> \<open>\<open>!x\<close> holds of a number that is absent or 0; \<open>a || b\<close> is \<open>b\<close> for such an \<open>a\<close>\<close>
  "getContentPositionFromPage pg offset =
     (case metadata pg of
        None \<Rightarrow> None
      | Some m \<Rightarrow>
          (case md_blockIds m of
             [] \<Rightarrow> None
           | b # bs \<Rightarrow>
               if md_chapterId m = 0 \<or> b = 0 then None
               else
                 let adjustedOffset = max 0 (min offset (int (length (pd_content pg)) - 1))
                 in Some \<lparr>chapterId = md_chapterId m,
                          blockId = (case startBlockId m of
                                       None \<Rightarrow> b
                                     | Some s \<Rightarrow> if s = 0 then b else s),
                          characterOffset = adjustedOffset\<rparr>))"

text \<open>
  The two nested loops of \<open>findNearestPageToPosition\<close> over the pages of the chapter and
  their block ids. \<open>bestDistance\<close> starts at \<open>Number.MAX_VALUE\<close>, which is \<open>None\<close> here:
  every distance between two identifiers is below it.
\<close>

fun nearestInPage ::
  "int \<Rightarrow> PageData \<times> nat \<Rightarrow> int list \<Rightarrow> (PageData \<times> nat) \<times> nat option \<Rightarrow> (PageData \<times> nat) \<times> nat option" where
  "nearestInPage target entry [] best = best"
| "nearestInPage target entry (b # bs) (bestMatch, bestDistance) =
     (let distance = nat \<bar>b - target\<bar>
      in if (case bestDistance of None \<Rightarrow> True | Some d \<Rightarrow> distance < d)
         then nearestInPage target entry bs (entry, Some distance)
         else nearestInPage target entry bs (bestMatch, bestDistance))"

fun nearestInChapter ::
  "int \<Rightarrow> (PageData \<times> nat) list \<Rightarrow> (PageData \<times> nat) \<times> nat option \<Rightarrow> (PageData \<times> nat) \<times> nat option" where
  "nearestInChapter target [] best = best"
| "nearestInChapter target (entry # rest) best =
     (case metadata (fst entry) of
        None \<Rightarrow> nearestInChapter target rest best
      | Some m \<Rightarrow> nearestInChapter target rest (nearestInPage target entry (md_blockIds m) best))"

definition findNearestPageToPosition :: "PageData list \<Rightarrow> ContentPosition \<Rightarrow> FindResult option" where
  "findNearestPageToPosition pages pos =
     (case findPageByBlockId pages (blockId pos) of
        Some exact \<Rightarrow> Some exact
      | None \<Rightarrow>
          let chapterMatches =
                filter (\<lambda>(pg, index). case metadata pg of
                                          None \<Rightarrow> False
                                        | Some m \<Rightarrow> md_chapterId m = chapterId pos)
                       (zip pages [0 ..< length pages])
          in (case chapterMatches of
                [] \<Rightarrow> None
              | first # others \<Rightarrow>
                  let bestMatch = fst (nearestInChapter (blockId pos) chapterMatches (first, None))
                  in Some \<lparr>pageIndex = snd bestMatch, page = fst bestMatch, exactMatch = False\<rparr>))"

definition lastOption :: "'a list \<Rightarrow> 'a option" where
  \<comment> \<open>\<open>xs[xs.length - 1]\<close>\<close>
  "lastOption xs = (if xs = [] then None else Some (last xs))"

definition headOption :: "'a list \<Rightarrow> 'a option" where
  \<comment> \<open>\<open>xs[0]\<close>\<close>
  "headOption xs = (case xs of [] \<Rightarrow> None | x # _ \<Rightarrow> Some x)"

definition enrichPageWithMetadata ::
  "jsstring \<Rightarrow> jsstring option \<Rightarrow> int \<Rightarrow> int list \<Rightarrow> bool \<Rightarrow> bool \<Rightarrow> nat option \<Rightarrow> PageData" where
  "enrichPageWithMetadata pageContent title chId blockIds chapterStart chapterEnd endOffset =
     \<lparr>pd_content = pageContent,
      chapterTitle = title,
      isChapterStart = Some chapterStart,
      isChapterEnd = Some chapterEnd,
      metadata = Some \<lparr>md_chapterId = chId,
                       md_blockIds = blockIds,
                       startBlockId = headOption blockIds,
                       endBlockId = lastOption blockIds,
                       endBlockCharacterOffset = endOffset,
                       characterRange = Some (0, int (length pageContent) - 1)\<rparr>\<rparr>"

section \<open>The pagination hook (useVerticalTextPagination)\<close>

text \<open>
  The measuring \<open>div\<close> is a parameter: \<open>measureTextWidth\<close> maps a string to the
  \<open>scrollWidth\<close> the browser reports for it, and \<open>actualMaxWidth\<close> is the width that
  \<open>measureActualDisplayArea\<close> returned. Widths are of any linearly ordered type.
  Progress reports and the \<open>await\<close>s between blocks do not touch the variables of the
  computation and are left out.
\<close>

datatype TextBlockType = TParagraph | TConversation | TChapter

text \<open>
  The \<open>id\<close> of a \<open>TextBlock\<close> is \<open>`chapter-${chapter.id}`\<close> or
  \<open>`block-${chapter.id}-${block.id}`\<close>. The hook reads identifiers back with
  \<open>parseInt(id.split('-')[k])\<close>. A negative number prints with a leading \<open>-\<close>, which
  \<open>split\<close> takes for a separator: the field before its digits is empty, and
  \<open>parseInt('')\<close> is \<open>NaN\<close>, here \<open>None\<close>. Identifiers are whole numbers that print
  with all their digits; a number of \<open>1e21\<close> or more prints as a mantissa and an
  exponent, of which \<open>parseInt\<close> reads the first digits only, and is outside the model.
  The general statements below do not depend on the values read back.
\<close>

datatype TextBlockId = ChapterMarkerId int | BlockMarkerId int int

fun idField1 :: "TextBlockId \<Rightarrow> int option" where
  \<comment> \<open>\<open>parseInt(id.split('-')[1])\<close>\<close>
  "idField1 (ChapterMarkerId c) = (if c \<ge> 0 then Some c else None)"
| "idField1 (BlockMarkerId c b) = (if c \<ge> 0 then Some c else None)"

fun idField2 :: "TextBlockId \<Rightarrow> int option" where
  \<comment> \<open>\<open>parseInt(id.split('-')[2])\<close>\<close>
  "idField2 (ChapterMarkerId c) = (if c \<ge> 0 then None else Some (- c))"
| "idField2 (BlockMarkerId c b) =
     (if c < 0 then Some (- c) else if b \<ge> 0 then Some b else None)"

definition orElse :: "int option \<Rightarrow> int \<Rightarrow> int" where
  \<comment> \<open>\<open>parsed || fallback\<close>: the fallback for \<open>NaN\<close> and for 0\<close>
  "orElse parsed fallback = (case parsed of None \<Rightarrow> fallback | Some v \<Rightarrow> if v = 0 then fallback else v)"

record TextBlock =
  tb_id :: TextBlockId
  tb_type :: TextBlockType
  tb_content :: jsstring
  tb_chapterTitle :: "jsstring option"

definition textBlockType :: "BlockType \<Rightarrow> TextBlockType" where
  "textBlockType t = (case t of Paragraph \<Rightarrow> TParagraph | Conversation \<Rightarrow> TConversation)"

definition chapterBlocks :: "Chapter \<Rightarrow> TextBlock list" where
  \<comment> \<open>what the body of \<open>chapters.forEach\<close> pushes for one chapter\<close>
  "chapterBlocks ch =
     \<lparr>tb_id = ChapterMarkerId (chapter_id ch), tb_type = TChapter, tb_content = [],
      tb_chapterTitle = Some (chapter_title ch)\<rparr>
     # map (\<lambda>b. \<lparr>tb_id = BlockMarkerId (chapter_id ch) (block_id b),
                  tb_type = textBlockType (block_type b),
                  tb_content = block_text b,
                  tb_chapterTitle = Some (chapter_title ch)\<rparr>) (blocks ch)"

definition getStructuredBlocks :: "BookContent \<Rightarrow> TextBlock list" where
  "getStructuredBlocks book = concat (map chapterBlocks (chapters book))"

text \<open>The binary search of \<open>findFittingText\<close>: the loop \<open>while (left <= right)\<close>.\<close>

function binarySearchLoop ::
  "(jsstring \<Rightarrow> 'w::linorder) \<Rightarrow> 'w \<Rightarrow> jsstring \<Rightarrow> jsstring \<Rightarrow> jsstring \<Rightarrow> int \<Rightarrow> int \<Rightarrow> jsstring
   \<Rightarrow> jsstring" where
  "binarySearchLoop measureTextWidth maxWidth text baseContent separator left right result =
     (if left \<le> right then
        let mid = (left + right) div 2;
            testText = substring text 0 (nat mid);
            fullTestContent = baseContent @ separator @ testText;
            width = measureTextWidth fullTestContent
        in if width \<le> maxWidth
           then binarySearchLoop measureTextWidth maxWidth text baseContent separator (mid + 1) right testText
           else binarySearchLoop measureTextWidth maxWidth text baseContent separator left (mid - 1) result
      else result)"
  by pat_completeness auto
termination
  by (relation "measure (\<lambda>(m, w, t, b, s, left, right, r). nat (right - left + 1))") auto

declare binarySearchLoop.simps [simp del]

definition binarySearchPrefix ::
  "(jsstring \<Rightarrow> 'w::linorder) \<Rightarrow> jsstring \<Rightarrow> 'w \<Rightarrow> jsstring \<Rightarrow> jsstring \<Rightarrow> jsstring" where
  \<comment> \<open>the value of \<open>result\<close> when the loop is left\<close>
  "binarySearchPrefix measureTextWidth text maxWidth baseContent separator =
     binarySearchLoop measureTextWidth maxWidth text baseContent separator 0 (int (length text)) []"

definition kinsokuFollower :: "jschar \<Rightarrow> bool" where
  \<comment> \<open>U+3002, U+3001, U+300D, U+300F, U+FF09, U+3011: the characters \<open>nextChar\<close> is compared with\<close>
  "kinsokuFollower c =
     (c = 12290 \<or> c = 12289 \<or> c = 12301 \<or> c = 12303 \<or> c = 65289 \<or> c = 12305)"

definition kinsokuAdjust :: "jsstring \<Rightarrow> jsstring \<Rightarrow> jsstring" where
  \<comment> \<open>the post-processing of \<open>result\<close> after the loop\<close>
  "kinsokuAdjust text result =
     (if length result > 0 \<and> length result < length text then
        let nextChar = text ! length result
        in if kinsokuFollower nextChar then
             (if length result > 1 then butlast result else result)
           else result
      else result)"

definition findFittingText ::
  "(jsstring \<Rightarrow> 'w::linorder) \<Rightarrow> jsstring \<Rightarrow> 'w \<Rightarrow> jsstring \<Rightarrow> jsstring \<Rightarrow> jsstring" where
  "findFittingText measureTextWidth text maxWidth baseContent separator =
     kinsokuAdjust text (binarySearchPrefix measureTextWidth text maxWidth baseContent separator)"

text \<open>The variables of \<open>calculatePagination\<close> that live across the loop over the blocks.\<close>

record PaginationVars =
  calculatedPages :: "PageData list"
  currentPageContent :: jsstring
  currentChapterTitle :: "jsstring option"
  currentChapterId :: int
  currentBlockIds :: "int list"
  lastBlockCharacterOffset :: nat
  blockTexts :: "int \<rightharpoonup> jsstring"
  currentBlockProcessedLength :: nat

definition pushPage :: "PageData \<Rightarrow> PaginationVars \<Rightarrow> PaginationVars" where
  \<comment> \<open>\<open>calculatedPages.push({id, content, chapterTitle, metadata})\<close>: the literal copies neither
      \<open>isChapterStart\<close> nor \<open>isChapterEnd\<close>\<close>
  "pushPage pageData v =
     v\<lparr>calculatedPages := calculatedPages v
          @ [\<lparr>pd_content = pd_content pageData, chapterTitle = chapterTitle pageData,
               isChapterStart = None, isChapterEnd = None, metadata = metadata pageData\<rparr>]\<rparr>"

definition pushChapterEndPage :: "PageData \<Rightarrow> PaginationVars \<Rightarrow> PaginationVars" where
  \<comment> \<open>\<open>calculatedPages.push({id, content, chapterTitle, isChapterEnd, metadata})\<close>\<close>
  "pushChapterEndPage pageData v =
     v\<lparr>calculatedPages := calculatedPages v
          @ [\<lparr>pd_content = pd_content pageData, chapterTitle = chapterTitle pageData,
               isChapterStart = None, isChapterEnd = isChapterEnd pageData,
               metadata = metadata pageData\<rparr>]\<rparr>"

definition withoutIndent :: "jsstring \<Rightarrow> jsstring" where
  \<comment> \<open>\<open>s.replace(/\<dots>/g, '')\<close> for the full-width space\<close>
  "withoutIndent s = filter (\<lambda>c. c \<noteq> IDEOGRAPHIC_SPACE) s"

definition originalBlockText :: "PaginationVars \<Rightarrow> int \<Rightarrow> jsstring" where
  \<comment> \<open>\<open>blockTexts.get(blockId) || ''\<close>\<close>
  "originalBlockText v bid = (case blockTexts v bid of None \<Rightarrow> [] | Some t \<Rightarrow> t)"

text \<open>
  The loop \<open>while (remainingContent.length > 0)\<close> that follows a partial fit on the
  current page. It leaves through \<open>break\<close> either with the remainder as the new current
  page or, when \<open>findFittingText\<close> returns the empty string, with nothing done.
\<close>

function placeRemaining ::
  "(jsstring \<Rightarrow> 'w::linorder) \<Rightarrow> 'w \<Rightarrow> int \<Rightarrow> jsstring \<Rightarrow> PaginationVars \<Rightarrow> PaginationVars" where
  "placeRemaining measureTextWidth actualMaxWidth bid remainingContent v =
     (if length remainingContent > 0 then
        (if measureTextWidth remainingContent \<le> actualMaxWidth then
           v\<lparr>currentPageContent := remainingContent\<rparr>
         else
           let nextFittingPortion = findFittingText measureTextWidth remainingContent actualMaxWidth [] []
           in if length nextFittingPortion > 0 then
                let processed = currentBlockProcessedLength v + length (withoutIndent nextFittingPortion);
                    pageData = enrichPageWithMetadata nextFittingPortion (currentChapterTitle v)
                                 (currentChapterId v) [bid] False False (Some processed)
                in placeRemaining measureTextWidth actualMaxWidth bid
                     (substringFrom remainingContent (length nextFittingPortion))
                     (pushPage pageData (v\<lparr>currentBlockProcessedLength := processed\<rparr>))
              else v)
      else v)"
  by pat_completeness auto
termination
  by (relation "measure (\<lambda>(m, w, bid, remainingContent, v). length remainingContent)")
     (auto simp: substringFrom_def)

declare placeRemaining.simps [simp del]

text \<open>
  The loop \<open>while (remainingBlockContent.length > 0)\<close> that splits a block on fresh pages.
  It returns the remainder together with the variables.
\<close>

function splitOnFreshPages ::
  "(jsstring \<Rightarrow> 'w::linorder) \<Rightarrow> 'w \<Rightarrow> int \<Rightarrow> jsstring \<Rightarrow> PaginationVars \<Rightarrow> jsstring \<times> PaginationVars" where
  "splitOnFreshPages measureTextWidth actualMaxWidth bid remainingBlockContent v =
     (if length remainingBlockContent > 0 then
        let fittingText = findFittingText measureTextWidth remainingBlockContent actualMaxWidth [] []
        in if length fittingText > 0 then
             let processed = currentBlockProcessedLength v + length (withoutIndent fittingText);
                 pageData = enrichPageWithMetadata fittingText (currentChapterTitle v)
                              (currentChapterId v) [bid] False False (Some processed)
             in splitOnFreshPages measureTextWidth actualMaxWidth bid
                  (substringFrom remainingBlockContent (length fittingText))
                  (pushPage pageData (v\<lparr>currentBlockProcessedLength := processed\<rparr>))
           else (remainingBlockContent, v)
      else (remainingBlockContent, v))"
  by pat_completeness auto
termination
  by (relation "measure (\<lambda>(m, w, bid, remainingBlockContent, v). length remainingBlockContent)")
     (auto simp: substringFrom_def)

declare splitOnFreshPages.simps [simp del]

definition chapterStart :: "TextBlock \<Rightarrow> PaginationVars \<Rightarrow> PaginationVars" where
  \<comment> \<open>the branch \<open>if (block.type === 'chapter')\<close>\<close>
  "chapterStart block v =
     (let v1 = (if currentPageContent v \<noteq> [] then
                  (pushChapterEndPage
                     (enrichPageWithMetadata (currentPageContent v) (currentChapterTitle v)
                        (currentChapterId v) (currentBlockIds v) False True
                        (Some (lastBlockCharacterOffset v))) v)
                  \<lparr>currentPageContent := [], currentBlockIds := []\<rparr>
                else v)
      in v1\<lparr>currentChapterTitle := tb_chapterTitle block,
             currentChapterId := orElse (idField1 (tb_id block)) (currentChapterId v + 1),
             lastBlockCharacterOffset := 0\<rparr>)"

definition overflowWithFit ::
  "(jsstring \<Rightarrow> 'w::linorder) \<Rightarrow> 'w \<Rightarrow> int \<Rightarrow> jsstring \<Rightarrow> jsstring \<Rightarrow> jsstring \<Rightarrow> PaginationVars
   \<Rightarrow> PaginationVars" where
  \<comment> \<open>the branch \<open>if (fittingPortion.length > 0)\<close>\<close>
  "overflowWithFit measureTextWidth actualMaxWidth bid blockContent separator fittingPortion v =
     (let pageWithFittingPortion = currentPageContent v @ separator @ fittingPortion;
          processed = currentBlockProcessedLength v + length (withoutIndent fittingPortion);
          pageData = enrichPageWithMetadata pageWithFittingPortion (currentChapterTitle v)
                       (currentChapterId v) (currentBlockIds v) False False (Some processed);
          v1 = (pushPage pageData (v\<lparr>currentBlockProcessedLength := processed\<rparr>))
                 \<lparr>currentPageContent := [], currentBlockIds := [bid]\<rparr>
      in placeRemaining measureTextWidth actualMaxWidth bid
           (substringFrom blockContent (length fittingPortion)) v1)"

definition overflowWithoutFit ::
  "(jsstring \<Rightarrow> 'w::linorder) \<Rightarrow> 'w \<Rightarrow> int \<Rightarrow> jsstring \<Rightarrow> PaginationVars \<Rightarrow> PaginationVars" where
  \<comment> \<open>the \<open>else\<close> branch of \<open>if (fittingPortion.length > 0)\<close>\<close>
  "overflowWithoutFit measureTextWidth actualMaxWidth bid blockContent v =
     (let processed = length (originalBlockText v bid);
          pageData = enrichPageWithMetadata (currentPageContent v) (currentChapterTitle v)
                       (currentChapterId v) (currentBlockIds v) False False (Some processed);
          v1 = (pushPage pageData (v\<lparr>currentBlockProcessedLength := processed\<rparr>))
                 \<lparr>currentPageContent := [], currentBlockIds := [bid]\<rparr>
      in if measureTextWidth blockContent \<le> actualMaxWidth then
           v1\<lparr>currentPageContent := blockContent\<rparr>
         else
           let (remainingBlockContent, v2) =
                 splitOnFreshPages measureTextWidth actualMaxWidth bid blockContent v1
           in if length remainingBlockContent > 0
              then v2\<lparr>currentPageContent := remainingBlockContent\<rparr>
              else v2)"

definition rememberBlockText :: "int \<Rightarrow> jsstring \<Rightarrow> PaginationVars \<Rightarrow> PaginationVars" where
  \<comment> \<open>\<open>if (!blockTexts.has(blockId)) blockTexts.set(blockId, block.content)\<close>\<close>
  "rememberBlockText bid content v =
     (if blockTexts v bid = None then v\<lparr>blockTexts := (blockTexts v)(bid \<mapsto> content)\<rparr> else v)"

definition trackBlockId :: "int \<Rightarrow> jsstring \<Rightarrow> PaginationVars \<Rightarrow> PaginationVars" where
  \<comment> \<open>the branch \<open>if (!currentBlockIds.includes(blockId))\<close>\<close>
  "trackBlockId bid content v =
     (if bid \<notin> set (currentBlockIds v)
      then v\<lparr>currentBlockIds := currentBlockIds v @ [bid],
             blockTexts := (blockTexts v)(bid \<mapsto> content),
             currentBlockProcessedLength := 0\<rparr>
      else v)"

definition placeBlock ::
  "(jsstring \<Rightarrow> 'w::linorder) \<Rightarrow> 'w \<Rightarrow> int \<Rightarrow> jsstring \<Rightarrow> jsstring \<Rightarrow> jsstring \<Rightarrow> 'w
   \<Rightarrow> PaginationVars \<Rightarrow> PaginationVars" where
  \<comment> \<open>\<open>if (width > actualMaxWidth && currentPageContent) { ... } else { ... }\<close>\<close>
  "placeBlock measureTextWidth actualMaxWidth bid blockContent separator testContent width v =
     (if width > actualMaxWidth \<and> currentPageContent v \<noteq> [] then
        let fittingPortion = findFittingText measureTextWidth blockContent actualMaxWidth
                               (currentPageContent v) separator
        in if length fittingPortion > 0
           then overflowWithFit measureTextWidth actualMaxWidth bid blockContent separator
                  fittingPortion v
           else overflowWithoutFit measureTextWidth actualMaxWidth bid blockContent v
      else
        v\<lparr>currentPageContent := testContent,
          lastBlockCharacterOffset := length (originalBlockText v bid)\<rparr>)"

definition textBlockStep ::
  "(jsstring \<Rightarrow> 'w::linorder) \<Rightarrow> 'w \<Rightarrow> TextBlock \<Rightarrow> PaginationVars \<Rightarrow> PaginationVars" where
  \<comment> \<open>the body of the loop for a block that is not a chapter marker\<close>
  "textBlockStep measureTextWidth actualMaxWidth block v0 =
     (let bid = orElse (idField2 (tb_id block)) 0;
          v1 = rememberBlockText bid (tb_content block) v0;
          blockContent = (if tb_type block = TParagraph
                          then IDEOGRAPHIC_SPACE # tb_content block
                          else tb_content block);
          separator = (if currentPageContent v1 \<noteq> [] then [NEWLINE] else []);
          testContent = currentPageContent v1 @ separator @ blockContent;
          width = measureTextWidth testContent;
          v = trackBlockId bid (tb_content block) v1
      in placeBlock measureTextWidth actualMaxWidth bid blockContent separator testContent width v)"

definition paginationStep ::
  "(jsstring \<Rightarrow> 'w::linorder) \<Rightarrow> 'w \<Rightarrow> PaginationVars \<Rightarrow> TextBlock \<Rightarrow> PaginationVars" where
  \<comment> \<open>the body of \<open>for (let i = 0; i < structuredBlocks.length; i++)\<close>\<close>
  "paginationStep measureTextWidth actualMaxWidth v block =
     (if tb_type block = TChapter then chapterStart block v
      else textBlockStep measureTextWidth actualMaxWidth block v)"

definition initialVars :: PaginationVars where
  "initialVars =
     \<lparr>calculatedPages = [], currentPageContent = [], currentChapterTitle = None,
      currentChapterId = 1, currentBlockIds = [], lastBlockCharacterOffset = 0,
      blockTexts = Map.empty, currentBlockProcessedLength = 0\<rparr>"

definition saveLastPage :: "PaginationVars \<Rightarrow> PaginationVars" where
  \<comment> \<open>after the loop: \<open>if (currentPageContent) { ... calculatedPages.push(...) }\<close>\<close>
  "saveLastPage v =
     (if currentPageContent v \<noteq> [] then
        pushPage (enrichPageWithMetadata (currentPageContent v) (currentChapterTitle v)
                    (currentChapterId v) (currentBlockIds v) False False
                    (Some (lastBlockCharacterOffset v))) v
      else v)"

definition paginateBlocks ::
  "(jsstring \<Rightarrow> 'w::linorder) \<Rightarrow> 'w \<Rightarrow> TextBlock list \<Rightarrow> PageData list" where
  "paginateBlocks measureTextWidth actualMaxWidth structuredBlocks =
     calculatedPages
       (saveLastPage (foldl (paginationStep measureTextWidth actualMaxWidth) initialVars structuredBlocks))"

datatype PaginationError = NoBookData

definition calculatePagination ::
  "(jsstring \<Rightarrow> 'w::linorder) \<Rightarrow> 'w \<Rightarrow> BookContent \<Rightarrow> PaginationError + PageData list" where
  \<comment> \<open>\<open>Inl\<close>: the error thrown for an empty block list and reported through \<open>setError\<close>;
      \<open>Inr\<close>: the list given to \<open>setPages\<close>\<close>
  "calculatePagination measureTextWidth actualMaxWidth book =
     (let structuredBlocks = getStructuredBlocks book
      in if length structuredBlocks = 0 then Inl NoBookData
         else Inr (paginateBlocks measureTextWidth actualMaxWidth structuredBlocks))"

section \<open>DOMPaginationCalculator (lib/utils/content-position-finder.ts)\<close>

text \<open>
  The measurement container is a parameter: \<open>overflow text\<close> is the field \<open>overflow\<close> of
  \<open>measureText(text)\<close>, which for vertical writing says whether the \<open>scrollWidth\<close> of the
  text container exceeds the \<open>clientWidth\<close> of the measurement container. The other
  fields of a measurement are not read by the functions below.
\<close>

definition kinsokuStart :: jsstring where
  \<comment> \<open>the 26 characters that must not start a line\<close>
  "kinsokuStart =
     [12289, 12290, 65292, 65294, 12539, 65306, 65307, 65311, 65281, 12443, 12444, 12541, 12542,
      12445, 12446, 12293, 12540, 65289, 65341, 65373, 12301, 12303, 12305, 12309, 12297, 12299]"

definition kinsokuEnd :: jsstring where
  \<comment> \<open>the 9 opening brackets that must not end a line\<close>
  "kinsokuEnd = [65288, 65339, 65371, 12300, 12302, 12304, 12308, 12296, 12298]"

definition includesChar :: "jsstring \<Rightarrow> jschar \<Rightarrow> bool" where
  \<comment> \<open>\<open>s.includes(c)\<close> for a string \<open>c\<close> of one code unit\<close>
  "includesChar s c = (c \<in> set s)"

text \<open>The binary search of \<open>findOptimalBreakPoint\<close>: the loop \<open>while (left <= right)\<close>.\<close>

function optimalLoop :: "(jsstring \<Rightarrow> bool) \<Rightarrow> jsstring \<Rightarrow> int \<Rightarrow> int \<Rightarrow> int \<Rightarrow> int" where
  "optimalLoop overflow text left right bestFit =
     (if left \<le> right then
        let mid = (left + right) div 2;
            testText = substring text 0 (nat mid)
        in if \<not> overflow testText
           then optimalLoop overflow text (mid + 1) right mid
           else optimalLoop overflow text left (mid - 1) bestFit
      else bestFit)"
  by pat_completeness auto
termination
  by (relation "measure (\<lambda>(ov, t, left, right, b). nat (right - left + 1))") auto

declare optimalLoop.simps [simp del]

text \<open>
  The two loops of \<open>applyKinsoku\<close>. \<open>safeBefore overflow text i\<close> is the loop
  \<open>for (let i = position - 1; i > 0; i--)\<close> from \<open>i\<close> on, \<open>safeAfter\<close> the loop
  \<open>for (let i = position + 1; i < text.length && i < position + 10; i++)\<close>; \<open>Some i\<close> is
  the \<open>return i\<close> inside the loop, \<open>None\<close> the end of the loop.
\<close>

fun safeBefore :: "(jsstring \<Rightarrow> bool) \<Rightarrow> jsstring \<Rightarrow> nat \<Rightarrow> nat option" where
  "safeBefore overflow text 0 = None"
| "safeBefore overflow text (Suc n) =
     (if \<not> includesChar kinsokuStart (text ! Suc n) \<and> \<not> overflow (substring text 0 (Suc n))
      then Some (Suc n)
      else safeBefore overflow text n)"

function safeAfter :: "(jsstring \<Rightarrow> bool) \<Rightarrow> jsstring \<Rightarrow> nat \<Rightarrow> nat \<Rightarrow> nat option" where
  "safeAfter overflow text pos i =
     (if i < length text \<and> i < pos + 10 then
        (if \<not> includesChar kinsokuEnd (text ! (i - 1)) \<and> \<not> overflow (substring text 0 i)
         then Some i
         else safeAfter overflow text pos (i + 1))
      else None)"
  by pat_completeness auto
termination
  by (relation "measure (\<lambda>(ov, t, pos, i). length t - i)") auto

declare safeAfter.simps [simp del]

definition applyKinsoku :: "(jsstring \<Rightarrow> bool) \<Rightarrow> jsstring \<Rightarrow> int \<Rightarrow> int" where
  "applyKinsoku overflow text pos =
     (if pos \<le> 0 \<or> pos \<ge> int (length text) then pos
      else
        let nextChar = text ! nat pos;
            prevChar = text ! nat (pos - 1);
            before = (if includesChar kinsokuStart nextChar
                      then safeBefore overflow text (nat (pos - 1)) else None)
        in case before of
             Some i \<Rightarrow> int i
           | None \<Rightarrow>
               if includesChar kinsokuEnd prevChar then
                 (case safeAfter overflow text (nat pos) (nat (pos + 1)) of
                    Some i \<Rightarrow> int i
                  | None \<Rightarrow> max 0 (pos - 1))
               else pos)"

definition findOptimalBreakPoint :: "(jsstring \<Rightarrow> bool) \<Rightarrow> jsstring \<Rightarrow> int" where
  "findOptimalBreakPoint overflow text =
     (if length text = 0 then 0
      else applyKinsoku overflow text (optimalLoop overflow text 0 (int (length text)) 0))"

text \<open>
  \<open>processChapter\<close>. The variables of the inner loop, which fills one page, are the
  block index and the character offset, shared with the outer loop, and the content, the
  break points and the flag \<open>remainingSpace\<close> of the page. The character offset is an
  integer: the source subtracts from it and \<open>substring\<close> takes a negative offset for 0.
\<close>

record PageBreakPoint =
  bp_chapterId :: int
  bp_blockId :: int
  bp_characterStart :: int
  bp_characterEnd :: int

record FillState =
  currentBlockIndex :: nat
  currentCharOffset :: int
  pageContent :: "jsstring list"
  pageBreakPoints :: "PageBreakPoint list"
  remainingSpace :: bool

definition forceOneCharacter :: "Chapter \<Rightarrow> Block \<Rightarrow> jsstring \<Rightarrow> bool \<Rightarrow> FillState \<Rightarrow> FillState" where
  \<comment> \<open>the branch \<open>if (addedChars <= 0 && pageContent.length === 0)\<close>\<close>
  "forceOneCharacter ch block remaining indented s =
     (let contentToAdd = (if indented then IDEOGRAPHIC_SPACE # substring remaining 0 1
                          else substring remaining 0 1)
      in s\<lparr>pageContent := pageContent s @ [contentToAdd],
            pageBreakPoints := pageBreakPoints s
              @ [\<lparr>bp_chapterId = chapter_id ch, bp_blockId = block_id block,
                   bp_characterStart = currentCharOffset s,
                   bp_characterEnd = currentCharOffset s + 1\<rparr>],
            currentCharOffset := currentCharOffset s + 1,
            remainingSpace := False\<rparr>)"

definition addPartially ::
  "Chapter \<Rightarrow> Block \<Rightarrow> jsstring \<Rightarrow> bool \<Rightarrow> bool \<Rightarrow> int \<Rightarrow> int \<Rightarrow> nat \<Rightarrow> FillState \<Rightarrow> FillState" where
  \<comment> \<open>the branch \<open>else if (addedChars > 0)\<close>\<close>
  "addPartially ch block remaining indented needsNewline addedChars breakPoint testLength s =
     (let connectorLength = (if needsNewline then 1 else 0);
          effectiveAddedChars = addedChars - connectorLength;
          originalAddedChars = (if indented then effectiveAddedChars - 1 else effectiveAddedChars);
          taken = substring remaining 0 (nat (max 1 originalAddedChars));
          indentedContent = (if indented then IDEOGRAPHIC_SPACE # taken else taken);
          contentToAdd = (if needsNewline then NEWLINE # indentedContent else indentedContent);
          offset = currentCharOffset s + originalAddedChars;
          usedUp = (offset \<ge> int (length (block_text block)))
      in s\<lparr>pageContent := pageContent s @ [contentToAdd],
            pageBreakPoints := pageBreakPoints s
              @ [\<lparr>bp_chapterId = chapter_id ch, bp_blockId = block_id block,
                   bp_characterStart = currentCharOffset s,
                   bp_characterEnd = currentCharOffset s + originalAddedChars\<rparr>],
            currentBlockIndex := (if usedUp then currentBlockIndex s + 1 else currentBlockIndex s),
            currentCharOffset := (if usedUp then 0 else offset),
            remainingSpace := (if breakPoint < int testLength then False else remainingSpace s)\<rparr>)"

definition fillStep :: "(jsstring \<Rightarrow> bool) \<Rightarrow> Chapter \<Rightarrow> FillState \<Rightarrow> FillState" where
  \<comment> \<open>the body of \<open>while (currentBlockIndex < chapter.blocks.length && remainingSpace)\<close>\<close>
  "fillStep overflow ch s =
     (let block = blocks ch ! currentBlockIndex s;
          remaining = substringFrom (block_text block) (nat (currentCharOffset s))
      in if length remaining = 0 then
           s\<lparr>currentBlockIndex := currentBlockIndex s + 1, currentCharOffset := 0\<rparr>
         else
           let currentPageText = concat (pageContent s);
               isBlockStart = (currentCharOffset s = 0);
               indented = (isBlockStart \<and> block_type block = Paragraph);
               textToAdd = (if indented then IDEOGRAPHIC_SPACE # remaining else remaining);
               needsNewline = (isBlockStart \<and> length (pageContent s) > 0);
               connector = (if needsNewline then [NEWLINE] else []);
               testText = currentPageText @ connector @ textToAdd;
               breakPoint = findOptimalBreakPoint overflow testText;
               addedChars = breakPoint - int (length currentPageText)
           in if addedChars \<le> 0 \<and> length (pageContent s) = 0 then
                forceOneCharacter ch block remaining indented s
              else if addedChars > 0 then
                addPartially ch block remaining indented needsNewline addedChars breakPoint
                  (length testText) s
              else s\<lparr>remainingSpace := False\<rparr>)"

lemma fillStep_decreases:
  assumes "currentBlockIndex s < length (blocks ch)" and "remainingSpace s"
  shows "\<not> remainingSpace (fillStep overflow ch s)
         \<or> length (blocks ch) - currentBlockIndex (fillStep overflow ch s)
             < length (blocks ch) - currentBlockIndex s
         \<or> (currentBlockIndex (fillStep overflow ch s) = currentBlockIndex s
             \<and> currentCharOffset s < currentCharOffset (fillStep overflow ch s)
             \<and> currentCharOffset (fillStep overflow ch s)
                 < int (length (block_text (blocks ch ! currentBlockIndex s))))"
  using assms
  unfolding fillStep_def forceOneCharacter_def addPartially_def Let_def substringFrom_def
  by (auto split: if_splits)

function fillPage :: "(jsstring \<Rightarrow> bool) \<Rightarrow> Chapter \<Rightarrow> FillState \<Rightarrow> FillState" where
  "fillPage overflow ch s =
     (if currentBlockIndex s < length (blocks ch) \<and> remainingSpace s
      then fillPage overflow ch (fillStep overflow ch s)
      else s)"
  by pat_completeness auto
termination
proof (relation "measures [\<lambda>(ov, ch, s). if remainingSpace s then 1 else 0,
                          \<lambda>(ov, ch, s). length (blocks ch) - currentBlockIndex s,
                          \<lambda>(ov, ch, s). nat (int (length (block_text (blocks ch ! currentBlockIndex s)))
                                               - currentCharOffset s)]")
  show "wf (measures [\<lambda>(ov, ch, s). if remainingSpace s then 1 else 0,
                      \<lambda>(ov, ch, s). length (blocks ch) - currentBlockIndex s,
                      \<lambda>(ov, ch, s). nat (int (length (block_text (blocks ch ! currentBlockIndex s)))
                                           - currentCharOffset s)])"
    by simp
next
  fix overflow :: "jsstring \<Rightarrow> bool" and ch :: Chapter and s :: FillState
  assume "currentBlockIndex s < length (blocks ch) \<and> remainingSpace s"
  then show "((overflow, ch, fillStep overflow ch s), (overflow, ch, s))
             \<in> measures [\<lambda>(ov, ch, s). if remainingSpace s then 1 else 0,
                          \<lambda>(ov, ch, s). length (blocks ch) - currentBlockIndex s,
                          \<lambda>(ov, ch, s). nat (int (length (block_text (blocks ch ! currentBlockIndex s)))
                                               - currentCharOffset s)]"
    using fillStep_decreases [of s ch overflow] by auto
qed

declare fillPage.simps [simp del]

text \<open>
  The outer loop \<open>while (currentBlockIndex < chapter.blocks.length)\<close>. Each round fills
  one page from an empty content and pushes it when it is not empty. Nothing in the
  source bounds the number of rounds, so the loop is a partial function: \<open>None\<close> is a
  loop that does not return.
\<close>

record ChapterState =
  chapterPages :: "Page list"
  pc_pageId :: int
  pc_blockIndex :: nat
  pc_charOffset :: int

definition createPage :: "Chapter \<Rightarrow> int \<Rightarrow> FillState \<Rightarrow> Page" where
  \<comment> \<open>the object pushed to \<open>chapterPages\<close>; \<open>x?.f || 0\<close> is 0 on an empty list\<close>
  "createPage ch pageId s =
     \<lparr>page_id = pageId,
      position =
        \<lparr>pos_chapterId = chapter_id ch,
         pos_blockId = (case headOption (pageBreakPoints s) of None \<Rightarrow> 0 | Some bp \<Rightarrow> bp_blockId bp),
         characterStart =
           (case headOption (pageBreakPoints s) of None \<Rightarrow> 0 | Some bp \<Rightarrow> bp_characterStart bp),
         characterEnd =
           (case lastOption (pageBreakPoints s) of None \<Rightarrow> 0 | Some bp \<Rightarrow> bp_characterEnd bp)\<rparr>,
      page_content = pageContent s,
      page_totalCharacters = int (length (concat (pageContent s)))\<rparr>"

definition pageRound :: "(jsstring \<Rightarrow> bool) \<Rightarrow> Chapter \<Rightarrow> ChapterState \<Rightarrow> ChapterState" where
  \<comment> \<open>the body of the outer loop\<close>
  "pageRound overflow ch st =
     (let s = fillPage overflow ch
                \<lparr>currentBlockIndex = pc_blockIndex st, currentCharOffset = pc_charOffset st,
                 pageContent = [], pageBreakPoints = [], remainingSpace = True\<rparr>;
          st1 = st\<lparr>pc_blockIndex := currentBlockIndex s, pc_charOffset := currentCharOffset s\<rparr>
      in if length (pageContent s) > 0
         then st1\<lparr>chapterPages := chapterPages st @ [createPage ch (pc_pageId st) s],
                  pc_pageId := pc_pageId st + 1\<rparr>
         else st1)"

partial_function (option) processChapterLoop ::
  "(jsstring \<Rightarrow> bool) \<Rightarrow> Chapter \<Rightarrow> ChapterState \<Rightarrow> Page list option" where
  "processChapterLoop overflow ch st =
     (if pc_blockIndex st < length (blocks ch)
      then processChapterLoop overflow ch (pageRound overflow ch st)
      else Some (chapterPages st))"

definition processChapter :: "(jsstring \<Rightarrow> bool) \<Rightarrow> Chapter \<Rightarrow> int \<Rightarrow> Page list option" where
  \<comment> \<open>\<open>firstPageId\<close> is \<open>this.pages.length + 1\<close>\<close>
  "processChapter overflow ch firstPageId =
     processChapterLoop overflow ch
       \<lparr>chapterPages = [], pc_pageId = firstPageId, pc_blockIndex = 0, pc_charOffset = 0\<rparr>"

section \<open>VerticalTextPaginator (components/vertical-text-paginator.tsx)\<close>

text \<open>
  The component holds the same pagination as the hook, without the page metadata and
  without the kinsoku adjustment. Its \<open>getStructuredBlocks\<close> is, letter for letter, the
  one of the hook and is not repeated; its \<open>findFittingText\<close> is the binary search
  alone, the loop being the one of \<open>binarySearchLoop\<close>. A page is its content and its
  chapter title; the \<open>id\<close> of a page is made of the clock and a random number and is
  left out. A block whose \<open>type\<close> is any string other than \<open>paragraph\<close> is treated like
  a conversation: it gets no indent.
\<close>

record PaginatorPage =
  pp_content :: jsstring
  pp_chapterTitle :: "jsstring option"

record PaginatorVars =
  pv_calculatedPages :: "PaginatorPage list"
  pv_currentPageContent :: jsstring
  pv_currentChapterTitle :: "jsstring option"

definition paginatorFindFittingText ::
  "(jsstring \<Rightarrow> 'w::linorder) \<Rightarrow> jsstring \<Rightarrow> 'w \<Rightarrow> jsstring \<Rightarrow> jsstring \<Rightarrow> jsstring" where
  "paginatorFindFittingText measureTextWidth text maxWidth baseContent separator =
     binarySearchLoop measureTextWidth maxWidth text baseContent separator 0 (int (length text)) []"

definition paginatorPush :: "jsstring \<Rightarrow> PaginatorVars \<Rightarrow> PaginatorVars" where
  \<comment> \<open>\<open>calculatedPages.push({id: currentPageId, content, chapterTitle: currentChapterTitle})\<close>\<close>
  "paginatorPush content v =
     v\<lparr>pv_calculatedPages := pv_calculatedPages v
          @ [\<lparr>pp_content = content, pp_chapterTitle = pv_currentChapterTitle v\<rparr>]\<rparr>"

text \<open>
  The loop \<open>while (remainingContent.length > 0)\<close> after a partial fit (lines 239 to 265),
  and the loop \<open>while (remainingBlockContent.length > 0)\<close> that splits a block on fresh
  pages (lines 286 to 301), which returns the remainder with the variables.
\<close>

function paginatorPlaceRemaining ::
  "(jsstring \<Rightarrow> 'w::linorder) \<Rightarrow> 'w \<Rightarrow> jsstring \<Rightarrow> PaginatorVars \<Rightarrow> PaginatorVars" where
  "paginatorPlaceRemaining measureTextWidth maxWidth remainingContent v =
     (if length remainingContent > 0 then
        (if measureTextWidth remainingContent \<le> maxWidth then
           v\<lparr>pv_currentPageContent := remainingContent\<rparr>
         else
           let nextFittingPortion = paginatorFindFittingText measureTextWidth remainingContent maxWidth [] []
           in if length nextFittingPortion > 0 then
                paginatorPlaceRemaining measureTextWidth maxWidth
                  (substringFrom remainingContent (length nextFittingPortion))
                  (paginatorPush nextFittingPortion v)
              else v)
      else v)"
  by pat_completeness auto
termination
  by (relation "measure (\<lambda>(m, w, remainingContent, v). length remainingContent)")
     (auto simp: substringFrom_def)

declare paginatorPlaceRemaining.simps [simp del]

function paginatorSplitOnFreshPages ::
  "(jsstring \<Rightarrow> 'w::linorder) \<Rightarrow> 'w \<Rightarrow> jsstring \<Rightarrow> PaginatorVars \<Rightarrow> jsstring \<times> PaginatorVars" where
  "paginatorSplitOnFreshPages measureTextWidth maxWidth remainingBlockContent v =
     (if length remainingBlockContent > 0 then
        let fittingText = paginatorFindFittingText measureTextWidth remainingBlockContent maxWidth [] []
        in if length fittingText > 0 then
             paginatorSplitOnFreshPages measureTextWidth maxWidth
               (substringFrom remainingBlockContent (length fittingText))
               (paginatorPush fittingText v)
           else (remainingBlockContent, v)
      else (remainingBlockContent, v))"
  by pat_completeness auto
termination
  by (relation "measure (\<lambda>(m, w, remainingBlockContent, v). length remainingBlockContent)")
     (auto simp: substringFrom_def)

declare paginatorSplitOnFreshPages.simps [simp del]

definition paginatorChapterStart :: "TextBlock \<Rightarrow> PaginatorVars \<Rightarrow> PaginatorVars" where
  \<comment> \<open>the branch \<open>if (block.type === 'chapter')\<close>\<close>
  "paginatorChapterStart block v =
     (let v1 = (if pv_currentPageContent v \<noteq> []
                then (paginatorPush (pv_currentPageContent v) v)\<lparr>pv_currentPageContent := []\<rparr>
                else v)
      in v1\<lparr>pv_currentChapterTitle := tb_chapterTitle block\<rparr>)"

definition paginatorOverflowWithFit ::
  "(jsstring \<Rightarrow> 'w::linorder) \<Rightarrow> 'w \<Rightarrow> jsstring \<Rightarrow> jsstring \<Rightarrow> jsstring \<Rightarrow> PaginatorVars
   \<Rightarrow> PaginatorVars" where
  \<comment> \<open>the branch \<open>if (fittingPortion.length > 0)\<close>\<close>
  "paginatorOverflowWithFit measureTextWidth maxWidth blockContent separator fittingPortion v =
     (let pageWithFittingPortion = pv_currentPageContent v @ separator @ fittingPortion;
          v1 = (paginatorPush pageWithFittingPortion v)\<lparr>pv_currentPageContent := []\<rparr>
      in paginatorPlaceRemaining measureTextWidth maxWidth
           (substringFrom blockContent (length fittingPortion)) v1)"

definition paginatorOverflowWithoutFit ::
  "(jsstring \<Rightarrow> 'w::linorder) \<Rightarrow> 'w \<Rightarrow> jsstring \<Rightarrow> PaginatorVars \<Rightarrow> PaginatorVars" where
  \<comment> \<open>the \<open>else\<close> branch of \<open>if (fittingPortion.length > 0)\<close>\<close>
  "paginatorOverflowWithoutFit measureTextWidth maxWidth blockContent v =
     (let v1 = (paginatorPush (pv_currentPageContent v) v)\<lparr>pv_currentPageContent := []\<rparr>
      in if measureTextWidth blockContent \<le> maxWidth then
           v1\<lparr>pv_currentPageContent := blockContent\<rparr>
         else
           let (remainingBlockContent, v2) =
                 paginatorSplitOnFreshPages measureTextWidth maxWidth blockContent v1
           in if length remainingBlockContent > 0
              then v2\<lparr>pv_currentPageContent := remainingBlockContent\<rparr>
              else v2)"

definition paginatorTextBlockStep ::
  "(jsstring \<Rightarrow> 'w::linorder) \<Rightarrow> 'w \<Rightarrow> TextBlock \<Rightarrow> PaginatorVars \<Rightarrow> PaginatorVars" where
  \<comment> \<open>the body of the loop for a block that is not a chapter marker\<close>
  "paginatorTextBlockStep measureTextWidth maxWidth block v =
     (let blockContent = (if tb_type block = TParagraph
                          then IDEOGRAPHIC_SPACE # tb_content block
                          else tb_content block);
          separator = (if pv_currentPageContent v \<noteq> [] then [NEWLINE] else []);
          testContent = pv_currentPageContent v @ separator @ blockContent;
          width = measureTextWidth testContent
      in if width > maxWidth \<and> pv_currentPageContent v \<noteq> [] then
           let fittingPortion = paginatorFindFittingText measureTextWidth blockContent maxWidth
                                  (pv_currentPageContent v) separator
           in if length fittingPortion > 0
              then paginatorOverflowWithFit measureTextWidth maxWidth blockContent separator
                     fittingPortion v
              else paginatorOverflowWithoutFit measureTextWidth maxWidth blockContent v
         else v\<lparr>pv_currentPageContent := testContent\<rparr>)"

definition paginatorStep ::
  "(jsstring \<Rightarrow> 'w::linorder) \<Rightarrow> 'w \<Rightarrow> PaginatorVars \<Rightarrow> TextBlock \<Rightarrow> PaginatorVars" where
  \<comment> \<open>the body of \<open>for (let i = 0; i < structuredBlocks.length; i++)\<close>\<close>
  "paginatorStep measureTextWidth maxWidth v block =
     (if tb_type block = TChapter then paginatorChapterStart block v
      else paginatorTextBlockStep measureTextWidth maxWidth block v)"

definition paginatorInitialVars :: PaginatorVars where
  "paginatorInitialVars =
     \<lparr>pv_calculatedPages = [], pv_currentPageContent = [], pv_currentChapterTitle = None\<rparr>"

definition paginatorSaveLastPage :: "PaginatorVars \<Rightarrow> PaginatorVars" where
  \<comment> \<open>after the loop: \<open>if (currentPageContent) { calculatedPages.push(...) }\<close>\<close>
  "paginatorSaveLastPage v =
     (if pv_currentPageContent v \<noteq> [] then paginatorPush (pv_currentPageContent v) v else v)"

definition paginatorCalculatePagination ::
  "(jsstring \<Rightarrow> 'w::linorder) \<Rightarrow> 'w \<Rightarrow> BookContent \<Rightarrow> PaginationError + PaginatorPage list" where
  \<comment> \<open>\<open>Inl\<close>: the error thrown for an empty block list, caught and given to \<open>setError\<close>;
      \<open>Inr\<close>: the list given to \<open>setPages\<close>\<close>
  "paginatorCalculatePagination measureTextWidth maxWidth book =
     (let structuredBlocks = getStructuredBlocks book
      in if length structuredBlocks = 0 then Inl NoBookData
         else Inr (pv_calculatedPages
                     (paginatorSaveLastPage
                        (foldl (paginatorStep measureTextWidth maxWidth) paginatorInitialVars
                           structuredBlocks))))"

section \<open>Notions used in the statements\<close>

text \<open>The test of the loop of \<open>findPageByPosition\<close>, as a predicate on a page.\<close>

definition positionContains :: "Page \<Rightarrow> int \<Rightarrow> int \<Rightarrow> int \<Rightarrow> bool" where
  "positionContains pg chId blId characterPosition =
     (pos_chapterId (position pg) = chId \<and> pos_blockId (position pg) = blId
      \<and> characterStart (position pg) \<le> characterPosition
      \<and> characterPosition < characterEnd (position pg))"

definition bookText :: "BookContent \<Rightarrow> jsstring" where
  \<comment> \<open>the block texts of a book in reading order\<close>
  "bookText book = concat (map block_text (concat (map blocks (chapters book))))"

definition emitted :: "CalcState \<Rightarrow> jsstring" where
  \<comment> \<open>the text placed so far: the saved pages, then the page being filled\<close>
  "emitted st = concat (map pageText (cs_pages st)) @ concat (cs_currentPageContent st)"

definition withinDefault :: "CalcState \<Rightarrow> bool" where
  "withinDefault st =
     ((\<forall>p \<in> set (cs_pages st). length (pageText p) \<le> 1000)
      \<and> length (concat (cs_currentPageContent st)) \<le> 1000)"

text \<open>
  The words of the fitting search's contract: the prefix of \<open>k\<close> characters fits when
  the page content, the separator and the prefix together measure at most the page width;
  the measured width is monotone when it does not decrease as the prefix grows.
\<close>

definition fitsPrefix ::
  "(jsstring \<Rightarrow> 'w::linorder) \<Rightarrow> 'w \<Rightarrow> jsstring \<Rightarrow> jsstring \<Rightarrow> jsstring \<Rightarrow> nat \<Rightarrow> bool" where
  "fitsPrefix measureTextWidth maxWidth text baseContent separator k =
     (measureTextWidth (baseContent @ separator @ take k text) \<le> maxWidth)"

definition monotoneInPrefix ::
  "(jsstring \<Rightarrow> 'w::linorder) \<Rightarrow> jsstring \<Rightarrow> jsstring \<Rightarrow> jsstring \<Rightarrow> bool" where
  "monotoneInPrefix measureTextWidth text baseContent separator =
     (\<forall>i j. i \<le> j \<and> j \<le> length text \<longrightarrow>
        measureTextWidth (baseContent @ separator @ take i text)
        \<le> measureTextWidth (baseContent @ separator @ take j text))"

text \<open>
  What every page pushed by the pagination hook has: no \<open>isChapterStart\<close> field, and
  metadata whose \<open>startBlockId\<close> is the first of its \<open>blockIds\<close>.
\<close>

definition builtByHook :: "PageData \<Rightarrow> bool" where
  "builtByHook pg =
     (isChapterStart pg = None
      \<and> (case metadata pg of None \<Rightarrow> False | Some m \<Rightarrow> startBlockId m = headOption (md_blockIds m)))"

text \<open>
  The text of the pages saved so far, and the same with the page being filled counted as
  saved. Two runs make the same progress from \<open>v\<close> to \<open>u\<close> and from \<open>v'\<close> to \<open>u'\<close> when
  they save pages of the same contents and end with the same current page.
\<close>

definition pageContents :: "PaginationVars \<Rightarrow> jsstring list" where
  "pageContents v = map pd_content (calculatedPages v)"

definition closedContents :: "PaginationVars \<Rightarrow> jsstring list" where
  "closedContents v =
     pageContents v @ (if currentPageContent v \<noteq> [] then [currentPageContent v] else [])"

definition sameProgress ::
  "PaginationVars \<Rightarrow> PaginationVars \<Rightarrow> PaginationVars \<Rightarrow> PaginationVars \<Rightarrow> bool" where
  "sameProgress v u v' u' =
     (\<exists>new. pageContents u = pageContents v @ new \<and> pageContents u' = pageContents v' @ new
            \<and> currentPageContent u = currentPageContent u')"

definition chapterPageContents ::
  "(jsstring \<Rightarrow> 'w::linorder) \<Rightarrow> 'w \<Rightarrow> Chapter \<Rightarrow> jsstring list" where
  \<comment> \<open>the contents of the pages of a chapter paginated on its own\<close>
  "chapterPageContents measureTextWidth actualMaxWidth ch =
     map pd_content (paginateBlocks measureTextWidth actualMaxWidth (getStructuredBlocks \<lparr>chapters = [ch]\<rparr>))"

text \<open>
  What the coverage of the book by the pages says. The linearized text of a book is the
  list of its block texts in reading order, a paragraph with the full-width space that
  the pagination puts before it. A text reproduces a list of block texts when it is these
  texts one after the other, each of them preceded by a newline or by nothing: no
  character is dropped, duplicated or out of its place.
\<close>

definition indentedText :: "Block \<Rightarrow> jsstring" where
  "indentedText b =
     (if block_type b = Paragraph then IDEOGRAPHIC_SPACE # block_text b else block_text b)"

definition linearized :: "BookContent \<Rightarrow> jsstring list" where
  "linearized book = map indentedText (concat (map blocks (chapters book)))"

fun reproduces :: "jsstring \<Rightarrow> jsstring list \<Rightarrow> bool" where
  "reproduces s [] = (s = [])"
| "reproduces s (t # ts) =
     ((take (length t) s = t \<and> reproduces (drop (length t) s) ts)
      \<or> (take (Suc (length t)) s = NEWLINE # t \<and> reproduces (drop (Suc (length t)) s) ts))"

definition blockContentOf :: "TextBlock \<Rightarrow> jsstring" where
  \<comment> \<open>the value of \<open>blockContent\<close> in the loop over the structured blocks\<close>
  "blockContentOf block =
     (if tb_type block = TParagraph then IDEOGRAPHIC_SPACE # tb_content block
      else tb_content block)"

definition allText :: "PaginationVars \<Rightarrow> jsstring" where
  \<comment> \<open>the text on the saved pages and on the current page of the hook\<close>
  "allText v = concat (pageContents v) @ currentPageContent v"

definition paginatorContents :: "PaginatorVars \<Rightarrow> jsstring list" where
  "paginatorContents v = map pp_content (pv_calculatedPages v)"

definition paginatorAllText :: "PaginatorVars \<Rightarrow> jsstring" where
  \<comment> \<open>the text on the saved pages and on the current page of the component\<close>
  "paginatorAllText v = concat (paginatorContents v) @ pv_currentPageContent v"

text \<open>
  The measuring \<open>div\<close> of the hook and of the component has a fixed height, vertical
  writing and a line height that is a multiple of the font size: it lays a text out in
  columns of one width, and its \<open>scrollWidth\<close> grows with the number of columns. Two
  facts about such a surface are used: the empty text is no wider than any text, and a
  single character, which takes one column, is no wider than any text that is not empty.
\<close>

definition regularSurface :: "(jsstring \<Rightarrow> 'w::linorder) \<Rightarrow> bool" where
  "regularSurface measureTextWidth =
     ((\<forall>s. measureTextWidth [] \<le> measureTextWidth s)
      \<and> (\<forall>c s. s \<noteq> [] \<longrightarrow> measureTextWidth [c] \<le> measureTextWidth s))"

definition everyRemainderProgresses :: "(jsstring \<Rightarrow> 'w::linorder) \<Rightarrow> 'w \<Rightarrow> bool" where
  \<comment> \<open>a non-empty text that overflows an empty page has a non-empty fitting prefix\<close>
  "everyRemainderProgresses measureTextWidth actualMaxWidth =
     (\<forall>t. t \<noteq> [] \<and> \<not> measureTextWidth t \<le> actualMaxWidth
          \<longrightarrow> findFittingText measureTextWidth t actualMaxWidth [] [] \<noteq> [])"

text \<open>
  The state of \<open>processChapter\<close> at the start of a round in which only the indent of a
  paragraph fits the page: the round starts at the first character of a paragraph that
  is not empty, and the break point found for the indented paragraph is 1.
\<close>

definition indentOnly :: "(jsstring \<Rightarrow> bool) \<Rightarrow> Chapter \<Rightarrow> ChapterState \<Rightarrow> bool" where
  "indentOnly overflow ch st =
     (pc_blockIndex st < length (blocks ch)
      \<and> block_type (blocks ch ! pc_blockIndex st) = Paragraph
      \<and> block_text (blocks ch ! pc_blockIndex st) \<noteq> []
      \<and> findOptimalBreakPoint overflow (IDEOGRAPHIC_SPACE # block_text (blocks ch ! pc_blockIndex st)) = 1
      \<and> pc_charOffset st = 0)"

section \<open>Sample inputs\<close>

definition measurer22 :: TextMeasurer where
  \<comment> \<open>a 20 by 20 container, 10 px characters and lines: two lines of two characters\<close>
  "measurer22 = \<lparr>containerWidth = 20, containerHeight = 20, fontSize = 10, lineHeight = 1,
                 testTextWidth = Some 150\<rparr>"

definition measurer00 :: TextMeasurer where
  \<comment> \<open>a container of width 0\<close>
  "measurer00 = \<lparr>containerWidth = 0, containerHeight = 20, fontSize = 10, lineHeight = 1,
                 testTextWidth = Some 150\<rparr>"

definition chapterA :: Chapter where
  "chapterA = \<lparr>chapter_id = 1, chapter_title = [], blocks = []\<rparr>"

definition blockABC :: Block where
  "blockABC = \<lparr>block_id = 7, block_type = Paragraph, block_text = [97, 98, 99]\<rparr>"

definition twoPages :: "Page list" where
  "twoPages =
     [\<lparr>page_id = 1,
       position = \<lparr>pos_chapterId = 1, pos_blockId = 7, characterStart = 0, characterEnd = 3\<rparr>,
       page_content = [[97, 98, 99]], page_totalCharacters = 3\<rparr>,
      \<lparr>page_id = 2,
       position = \<lparr>pos_chapterId = 1, pos_blockId = 7, characterStart = 3, characterEnd = 6\<rparr>,
       page_content = [[100, 101, 102]], page_totalCharacters = 3\<rparr>]"

definition bookAB :: BookContent where
  "bookAB = \<lparr>chapters = [\<lparr>chapter_id = 1, chapter_title = [],
                          blocks = [\<lparr>block_id = 1, block_type = Paragraph, block_text = [97, 98]\<rparr>]\<rparr>]\<rparr>"

definition lengthWidth :: "jsstring \<Rightarrow> int" where
  \<comment> \<open>a measuring surface on which every character is one unit wide\<close>
  "lengthWidth s = int (length s)"

definition pageBlockZero :: PageData where
  \<comment> \<open>the page made of a block with id 0 in chapter 1\<close>
  "pageBlockZero = enrichPageWithMetadata [97, 98] None 1 [0] False False None"

definition pageBlockSeven :: PageData where
  "pageBlockSeven = enrichPageWithMetadata [97, 98] None 1 [7, 8] False False None"

definition bookTwoChapters :: BookContent where
  \<comment> \<open>two chapters of one paragraph each, the block ids starting again at 1 in each chapter\<close>
  "bookTwoChapters = \<lparr>chapters =
      [\<lparr>chapter_id = 1, chapter_title = [84],
        blocks = [\<lparr>block_id = 1, block_type = Paragraph, block_text = [97, 98]\<rparr>]\<rparr>,
       \<lparr>chapter_id = 2, chapter_title = [85],
        blocks = [\<lparr>block_id = 1, block_type = Paragraph, block_text = [99, 100]\<rparr>]\<rparr>]\<rparr>"

definition pagesTwoChapters :: "PageData list" where
  "pagesTwoChapters =
     [\<lparr>pd_content = [12288, 97, 98], chapterTitle = Some [84],
       isChapterStart = None, isChapterEnd = Some True,
       metadata = Some \<lparr>md_chapterId = 1, md_blockIds = [1], startBlockId = Some 1,
                        endBlockId = Some 1, endBlockCharacterOffset = Some 2,
                        characterRange = Some (0, 2)\<rparr>\<rparr>,
      \<lparr>pd_content = [12288, 99, 100], chapterTitle = Some [85],
       isChapterStart = None, isChapterEnd = None,
       metadata = Some \<lparr>md_chapterId = 2, md_blockIds = [1], startBlockId = Some 1,
                        endBlockId = Some 1, endBlockCharacterOffset = Some 2,
                        characterRange = Some (0, 2)\<rparr>\<rparr>]"

definition wideW :: "jsstring \<Rightarrow> int" where
  \<comment> \<open>a measuring surface on which \<open>W\<close> (87) makes a text 10 units wide and every other
      character is one unit wide\<close>
  "wideW s = (if 87 \<in> set s then 10 else int (length s))"

definition bookLoss :: BookContent where
  \<comment> \<open>one chapter with the conversation blocks \<open>ab\<close> and \<open>cW\<close>\<close>
  "bookLoss = \<lparr>chapters = [\<lparr>chapter_id = 1, chapter_title = [84],
       blocks = [\<lparr>block_id = 1, block_type = Conversation, block_text = [97, 98]\<rparr>,
                 \<lparr>block_id = 2, block_type = Conversation, block_text = [99, 87]\<rparr>]\<rparr>]\<rparr>"

text \<open>
  A surface laid out in columns: \<open>columns h s\<close> is the number of columns the text \<open>s\<close>
  takes in a box that is \<open>h\<close> characters high. A newline ends the column, and a character
  that finds the column full starts the next one. The scroll width of the box is this
  number times the width of a column.
\<close>

fun columnsFrom :: "nat \<Rightarrow> nat \<Rightarrow> jsstring \<Rightarrow> nat" where
  \<comment> \<open>\<open>k\<close> characters are in the column being filled\<close>
  "columnsFrom h k [] = (if k > 0 then 1 else 0)"
| "columnsFrom h k (c # s) =
     (if c = NEWLINE then 1 + columnsFrom h 0 s
      else if k \<ge> h then 1 + columnsFrom h 1 s
      else columnsFrom h (Suc k) s)"

definition columns :: "nat \<Rightarrow> jsstring \<Rightarrow> nat" where
  "columns h s = columnsFrom h 0 s"

definition fourCharacters :: "jsstring \<Rightarrow> bool" where
  \<comment> \<open>the overflow of a page of one column of four characters\<close>
  "fourCharacters s = (columns 4 s > 1)"

definition oneCharacter :: "jsstring \<Rightarrow> bool" where
  \<comment> \<open>the overflow of a page of one column of one character\<close>
  "oneCharacter s = (columns 1 s > 1)"

definition bookSplit :: BookContent where
  \<comment> \<open>one chapter with the conversation blocks \<open>a\<close> and \<open>bcdef\<close>\<close>
  "bookSplit = \<lparr>chapters = [\<lparr>chapter_id = 1, chapter_title = [84],
       blocks = [\<lparr>block_id = 1, block_type = Conversation, block_text = [97]\<rparr>,
                 \<lparr>block_id = 2, block_type = Conversation,
                  block_text = [98, 99, 100, 101, 102]\<rparr>]\<rparr>]\<rparr>"

definition marksText :: jsstring where
  \<comment> \<open>\<open>abc\<close>, U+3002, U+300D, \<open>d\<close>: a full stop and a closing bracket in a row\<close>
  "marksText = [97, 98, 99, 12290, 12301, 100]"

definition chapterRun :: Chapter where
  \<comment> \<open>one paragraph: U+3042 followed by four long vowel marks U+30FC\<close>
  "chapterRun = \<lparr>chapter_id = 1, chapter_title = [84],
     blocks = [\<lparr>block_id = 1, block_type = Paragraph,
                block_text = [12354, 12540, 12540, 12540, 12540]\<rparr>]\<rparr>"

definition chapterShort :: Chapter where
  \<comment> \<open>one conversation block \<open>abcdef\<close>\<close>
  "chapterShort = \<lparr>chapter_id = 1, chapter_title = [84],
     blocks = [\<lparr>block_id = 1, block_type = Conversation,
                block_text = [97, 98, 99, 100, 101, 102]\<rparr>]\<rparr>"

section \<open>Properties of fitTextToPage\<close>

lemma scanCut_pos: "scanCut t cutPoint i = Some c \<Longrightarrow> 0 < c"
proof (induction t cutPoint i rule: scanCut.induct)
  case (1 t cutPoint i)
  from 1(2) have "(10 * i > 7 * cutPoint \<and> i > 0) \<and>
      (if punctuationAt t i then Some (i + 1) else scanCut t cutPoint (i - 1)) = Some c"
    by (subst (asm) scanCut.simps) (simp split: if_splits)
  then show ?case using 1(1) by (cases "punctuationAt t i") auto
qed

lemma finalCutPoint_pos: "0 < finalCutPoint tc text"
  unfolding finalCutPoint_def Let_def by (simp only: max_def split: if_splits) auto

lemma getPageCapacity_lines_pos:
  "0 < totalCharacters (getPageCapacity tm) \<Longrightarrow> 0 < linesPerPage (getPageCapacity tm)"
proof -
  assume a: "0 < totalCharacters (getPageCapacity tm)"
  show ?thesis
  proof (cases "containerWidth tm \<le> 0 \<or> containerHeight tm \<le> 0")
    case True
    then show ?thesis using a by (simp add: getPageCapacity_def)
  next
    case False
    define cpl where "cpl = max 0 \<lfloor>containerWidth tm / getCharacterWidth tm\<rfloor>"
    define lpp where "lpp = max 0 \<lfloor>containerHeight tm / (fontSize tm * lineHeight tm)\<rfloor>"
    have tc: "totalCharacters (getPageCapacity tm) = cpl * lpp"
      and l: "linesPerPage (getPageCapacity tm) = lpp"
      using False unfolding getPageCapacity_def Let_def cpl_def lpp_def by simp_all
    have "0 \<le> cpl" "0 \<le> lpp" by (simp_all add: cpl_def lpp_def)
    with a tc have "0 < lpp"
      by (metis less_le mult_zero_right)
    then show ?thesis using l by simp
  qed
qed

lemma fitTextToPage_nonempty:
  assumes "text \<noteq> []" and "0 < totalCharacters (getPageCapacity tm)"
  shows "fittedText (fitTextToPage tm text) \<noteq> []"
proof -
  have lpp: "0 < linesPerPage (getPageCapacity tm)"
    using assms(2) by (rule getPageCapacity_lines_pos)
  show ?thesis
    unfolding fitTextToPage_def Let_def substring_def
    using assms lpp finalCutPoint_pos [of "totalCharacters (getPageCapacity tm)" "text"]
    by simp
qed

lemma capacity_measurer22:
  "getPageCapacity measurer22 = \<lparr>charactersPerLine = 2, linesPerPage = 2, totalCharacters = 4\<rparr>"
  by (simp add: getPageCapacity_def measurer22_def getCharacterWidth_def Let_def)

lemma capacity_measurer00:
  "getPageCapacity measurer00 = \<lparr>charactersPerLine = 0, linesPerPage = 0, totalCharacters = 0\<rparr>"
  by (simp add: getPageCapacity_def measurer00_def)

text \<open>
  C9. For every measurer and every text, \<open>fitTextToPage\<close> splits the text: the fitted
  part followed by the remaining part is the text. When the page capacity is not
  positive or the text is empty, the fitted part is empty and the remaining part is the
  whole text. When the capacity is positive and the text is not empty, the fitted part is
  not empty.
\<close>

theorem fitTextToPage_split:
  "fittedText (fitTextToPage tm text) @ remainingText (fitTextToPage tm text) = text
   \<and> (totalCharacters (getPageCapacity tm) \<le> 0 \<or> text = [] \<longrightarrow>
        fittedText (fitTextToPage tm text) = [] \<and> remainingText (fitTextToPage tm text) = text)
   \<and> (0 < totalCharacters (getPageCapacity tm) \<and> text \<noteq> [] \<longrightarrow>
        fittedText (fitTextToPage tm text) \<noteq> [])"
proof (intro conjI impI)
  show "fittedText (fitTextToPage tm text) @ remainingText (fitTextToPage tm text) = text"
    by (rule fitTextToPage_concat)
next
  assume "totalCharacters (getPageCapacity tm) \<le> 0 \<or> text = []"
  then show "fittedText (fitTextToPage tm text) = []"
    and "remainingText (fitTextToPage tm text) = text"
    by (auto simp: fitTextToPage_def)
next
  assume "0 < totalCharacters (getPageCapacity tm) \<and> text \<noteq> []"
  then show "fittedText (fitTextToPage tm text) \<noteq> []"
    using fitTextToPage_nonempty by blast
qed

theorem fitTextToPage_split_witness:
  "0 < totalCharacters (getPageCapacity measurer22) \<and> [97, 98, 99, 100, 101, 102] \<noteq> ([] :: jsstring)
   \<and> fittedText (fitTextToPage measurer22 [97, 98, 99, 100, 101, 102]) \<noteq> []
   \<and> totalCharacters (getPageCapacity measurer00) \<le> 0
   \<and> fittedText (fitTextToPage measurer00 [97, 98, 99]) = []
   \<and> remainingText (fitTextToPage measurer00 [97, 98, 99]) = [97, 98, 99]"
  using fitTextToPage_split [of measurer22 "[97, 98, 99, 100, 101, 102]"]
        fitTextToPage_split [of measurer00 "[97, 98, 99]"]
  by (simp add: capacity_measurer22 capacity_measurer00)

section \<open>Properties of splitLargeBlock\<close>

lemma splitLargeBlockLoop_pages:
  "\<exists>new. splitLargeBlockLoop tm c b r cs pid pages = pages @ new
         \<and> concat (map pageText new) = r
         \<and> length new \<le> length r
         \<and> [] \<notin> set (map pageText new)
         \<and> (totalCharacters (getPageCapacity tm) \<le> 0 \<or> linesPerPage (getPageCapacity tm) \<le> 0
              \<longrightarrow> map page_content new = map (\<lambda>ch. [[ch]]) r)"
proof (induction "length r" arbitrary: r cs pid pages rule: less_induct)
  case less
  show ?case
  proof (cases "r = []")
    case True
    then show ?thesis by (subst splitLargeBlockLoop.simps) simp
  next
    case nonempty: False
    let ?fit = "fitTextToPage tm r"
    show ?thesis
    proof (cases "fittedText ?fit = []")
      case True
      define p where "p = \<lparr>page_id = pid,
                        position = \<lparr>pos_chapterId = c, pos_blockId = b,
                                    characterStart = int cs,
                                    characterEnd = int cs + 1\<rparr>,
                        page_content = [take 1 r],
                        page_totalCharacters = 1\<rparr>"
      have step: "splitLargeBlockLoop tm c b r cs pid pages
                  = splitLargeBlockLoop tm c b (tl r) (cs + 1) (pid + 1) (pages @ [p])"
        using nonempty True
        by (subst splitLargeBlockLoop.simps) (simp add: substringFrom_def p_def drop_Suc)
      have "length (tl r) < length r" using nonempty by (cases r) auto
      from less [OF this, of "cs + 1" "pid + 1" "pages @ [p]"]
      obtain new where new: "splitLargeBlockLoop tm c b (tl r) (cs + 1) (pid + 1) (pages @ [p])
                              = (pages @ [p]) @ new"
        "concat (map pageText new) = tl r" "length new \<le> length (tl r)"
        "[] \<notin> set (map pageText new)"
        "totalCharacters (getPageCapacity tm) \<le> 0 \<or> linesPerPage (getPageCapacity tm) \<le> 0
           \<longrightarrow> map page_content new = map (\<lambda>ch. [[ch]]) (tl r)"
        by blast
      have pt: "pageText p = [hd r]" using nonempty by (cases r) (auto simp: pageText_def p_def)
      have pc: "page_content p = [[hd r]]" using nonempty by (cases r) (auto simp: p_def)
      show ?thesis
      proof (intro exI [of _ "p # new"] conjI impI)
        show "splitLargeBlockLoop tm c b r cs pid pages = pages @ p # new"
          using step new(1) by simp
        show "concat (map pageText (p # new)) = r"
          using new(2) pt nonempty by (cases r) auto
        show "length (p # new) \<le> length r" using new(3) nonempty by (cases r) auto
        show "[] \<notin> set (map pageText (p # new))" using new(4) pt by auto
        assume "totalCharacters (getPageCapacity tm) \<le> 0 \<or> linesPerPage (getPageCapacity tm) \<le> 0"
        with new(5) have "map page_content new = map (\<lambda>ch. [[ch]]) (tl r)" by simp
        then show "map page_content (p # new) = map (\<lambda>ch. [[ch]]) r"
          using pc nonempty by (cases r) auto
      qed
    next
      case False
      define p where "p = \<lparr>page_id = pid,
                        position = \<lparr>pos_chapterId = c, pos_blockId = b,
                                    characterStart = int cs,
                                    characterEnd = int cs + int (length (fittedText ?fit))\<rparr>,
                        page_content = [fittedText ?fit],
                        page_totalCharacters = int (length (fittedText ?fit))\<rparr>"
      have step: "splitLargeBlockLoop tm c b r cs pid pages
                  = splitLargeBlockLoop tm c b (remainingText ?fit) (cs + length (fittedText ?fit))
                      (pid + 1) (pages @ [p])"
        using nonempty False
        by (subst splitLargeBlockLoop.simps) (simp add: p_def)
      have "length (remainingText ?fit) < length r"
        using False by (rule fitTextToPage_remaining_shorter)
      from less [OF this, of "cs + length (fittedText ?fit)" "pid + 1" "pages @ [p]"]
      obtain new where new: "splitLargeBlockLoop tm c b (remainingText ?fit)
                               (cs + length (fittedText ?fit)) (pid + 1) (pages @ [p])
                              = (pages @ [p]) @ new"
        "concat (map pageText new) = remainingText ?fit" "length new \<le> length (remainingText ?fit)"
        "[] \<notin> set (map pageText new)"
        by blast
      have pt: "pageText p = fittedText ?fit" by (simp add: pageText_def p_def)
      have cap: "\<not> (totalCharacters (getPageCapacity tm) \<le> 0 \<or> linesPerPage (getPageCapacity tm) \<le> 0)"
        using False by (auto simp: fitTextToPage_def Let_def split: if_splits)
      have len: "length (fittedText ?fit) + length (remainingText ?fit) = length r"
        using fitTextToPage_concat [of tm r] by (metis length_append)
      show ?thesis
      proof (intro exI [of _ "p # new"] conjI impI)
        show "splitLargeBlockLoop tm c b r cs pid pages = pages @ p # new"
          using step new(1) by simp
        show "concat (map pageText (p # new)) = r"
          using new(2) pt fitTextToPage_concat [of tm r] by simp
        show "length (p # new) \<le> length r"
          using new(3) len False by (cases "fittedText ?fit") auto
        show "[] \<notin> set (map pageText (p # new))" using new(4) pt False by auto
        assume "totalCharacters (getPageCapacity tm) \<le> 0 \<or> linesPerPage (getPageCapacity tm) \<le> 0"
        with cap show "map page_content (p # new) = map (\<lambda>ch. [[ch]]) r" by simp
      qed
    qed
  qed
qed




lemma fitTextToPage_empty_iff:
  assumes "t \<noteq> []"
  shows "fittedText (fitTextToPage tm t) = []
         \<longleftrightarrow> totalCharacters (getPageCapacity tm) \<le> 0 \<or> linesPerPage (getPageCapacity tm) \<le> 0"
  using assms finalCutPoint_pos [of "totalCharacters (getPageCapacity tm)" t]
  unfolding fitTextToPage_def Let_def substring_def
  by (auto split: if_splits)

text \<open>
  The splitting loop of \<open>PaginationCalculator\<close>. For every measurer (so for every answer
  of \<open>fitTextToPage\<close>) and every block, \<open>splitLargeBlock\<close> returns: its loop is a total
  function, each round removing at least one character from the remaining text. The
  pages it appends are at most as many as the block has characters, none of them is
  empty, and their contents, in order, make up the block text. When \<open>fitTextToPage\<close>
  fits nothing of the block, every page holds exactly one character.
\<close>

lemma splitLargeBlock_returns:
  "\<exists>new. splitLargeBlock tm chapter block startPageId pages = pages @ new
         \<and> concat (map pageText new) = block_text block
         \<and> length new \<le> length (block_text block)
         \<and> [] \<notin> set (map pageText new)
         \<and> (fittedText (fitTextToPage tm (block_text block)) = []
              \<longrightarrow> map page_content new = map (\<lambda>ch. [[ch]]) (block_text block))"
proof -
  obtain new where new:
    "splitLargeBlock tm chapter block startPageId pages = pages @ new"
    "concat (map pageText new) = block_text block"
    "length new \<le> length (block_text block)"
    "[] \<notin> set (map pageText new)"
    "totalCharacters (getPageCapacity tm) \<le> 0 \<or> linesPerPage (getPageCapacity tm) \<le> 0
       \<longrightarrow> map page_content new = map (\<lambda>ch. [[ch]]) (block_text block)"
    unfolding splitLargeBlock_def
    using splitLargeBlockLoop_pages [of tm "chapter_id chapter" "block_id block" "block_text block" 0
            startPageId pages]
    by blast
  have "map page_content new = map (\<lambda>ch. [[ch]]) (block_text block)"
    if "fittedText (fitTextToPage tm (block_text block)) = []"
  proof (cases "block_text block = []")
    case True
    with new(3) show ?thesis by simp
  next
    case False
    with that new(5) fitTextToPage_empty_iff [of "block_text block" tm] show ?thesis by blast
  qed
  with new(1-4) show ?thesis by blast
qed

lemma splitLargeBlock_forced_characters:
  "fittedText (fitTextToPage measurer00 (block_text blockABC)) = []
   \<and> map page_content (splitLargeBlock measurer00 chapterA blockABC 1 []) = [[[97]], [[98]], [[99]]]"
  using splitLargeBlock_returns [of measurer00 chapterA blockABC 1 "[]"]
  by (auto simp: fitTextToPage_def capacity_measurer00 blockABC_def)


section \<open>Properties of findPageByPosition\<close>

lemma findPageByPositionFrom_none:
  "(\<forall>i < length pages. \<not> positionContains (pages ! i) c b p)
   \<Longrightarrow> findPageByPositionFrom k pages c b p = 0"
proof (induction pages arbitrary: k)
  case Nil
  then show ?case by simp
next
  case (Cons pg rest)
  from Cons.prems have "\<not> positionContains pg c b p" by (metis length_Cons nth_Cons_0 zero_less_Suc)
  moreover from Cons.prems have "\<forall>i < length rest. \<not> positionContains (rest ! i) c b p"
    by (metis Suc_less_eq length_Cons nth_Cons_Suc)
  ultimately show ?case using Cons.IH [of "k + 1"]
    by (auto simp: positionContains_def Let_def)
qed

lemma findPageByPositionFrom_first:
  "i < length pages \<Longrightarrow> positionContains (pages ! i) c b p
   \<Longrightarrow> (\<forall>j < i. \<not> positionContains (pages ! j) c b p)
   \<Longrightarrow> findPageByPositionFrom k pages c b p = k + i"
proof (induction pages arbitrary: k i)
  case Nil
  then show ?case by simp
next
  case (Cons pg rest)
  show ?case
  proof (cases i)
    case 0
    with Cons.prems show ?thesis by (auto simp: positionContains_def Let_def)
  next
    case (Suc i')
    with Cons.prems have "\<not> positionContains pg c b p" by (metis nth_Cons_0 zero_less_Suc)
    moreover have "findPageByPositionFrom (k + 1) rest c b p = (k + 1) + i'"
    proof (rule Cons.IH)
      show "i' < length rest" using Cons.prems(1) Suc by simp
      show "positionContains (rest ! i') c b p" using Cons.prems(2) Suc by simp
      show "\<forall>j<i'. \<not> positionContains (rest ! j) c b p"
        using Cons.prems(3) Suc by (metis Suc_less_eq nth_Cons_Suc)
    qed
    ultimately show ?thesis using Suc by (auto simp: positionContains_def Let_def)
  qed
qed

text \<open>
  C10. For every page list and every query, \<open>findPageByPosition\<close> returns the index of
  the first page whose position has the queried chapter and block and whose character
  range \<open>[characterStart, characterEnd)\<close> holds the queried character position; when no
  page does, it returns 0, the same number it returns for a match on the first page.
\<close>

theorem findPageByPosition_first_match_or_zero:
  "(\<forall>i < length pages.
       positionContains (pages ! i) chId blId characterPosition
       \<and> (\<forall>j < i. \<not> positionContains (pages ! j) chId blId characterPosition)
       \<longrightarrow> findPageByPosition pages chId blId characterPosition = i)
   \<and> ((\<forall>i < length pages. \<not> positionContains (pages ! i) chId blId characterPosition)
       \<longrightarrow> findPageByPosition pages chId blId characterPosition = 0)"
  using findPageByPositionFrom_first [of _ pages chId blId characterPosition 0]
        findPageByPositionFrom_none [of pages chId blId characterPosition 0]
  by (simp add: findPageByPosition_def)

theorem findPageByPosition_first_match_or_zero_witness:
  "positionContains (twoPages ! 1) 1 7 4 \<and> \<not> positionContains (twoPages ! 0) 1 7 4
   \<and> findPageByPosition twoPages 1 7 4 = 1
   \<and> positionContains (twoPages ! 0) 1 7 0
   \<and> findPageByPosition twoPages 1 7 0 = 0
   \<and> \<not> positionContains (twoPages ! 0) 1 8 0 \<and> \<not> positionContains (twoPages ! 1) 1 8 0
   \<and> findPageByPosition twoPages 1 8 0 = 0"
proof -
  have len: "length twoPages = 2" by (simp add: twoPages_def)
  have a: "positionContains (twoPages ! 1) 1 7 4" "\<not> positionContains (twoPages ! 0) 1 7 4"
    "positionContains (twoPages ! 0) 1 7 0"
    "\<not> positionContains (twoPages ! 0) 1 8 0" "\<not> positionContains (twoPages ! 1) 1 8 0"
    by (simp_all add: twoPages_def positionContains_def)
  have none: "\<forall>i < length twoPages. \<not> positionContains (twoPages ! i) 1 8 0"
    using a(4,5) len by (auto simp: less_Suc_eq numeral_2_eq_2)
  have "findPageByPosition twoPages 1 7 4 = 1"
    using findPageByPosition_first_match_or_zero [of twoPages 1 7 4] a(1,2) len by auto
  moreover have "findPageByPosition twoPages 1 7 0 = 0"
    using findPageByPosition_first_match_or_zero [of twoPages 1 7 0] a(3) len by auto
  moreover have "findPageByPosition twoPages 1 8 0 = 0"
    using findPageByPosition_first_match_or_zero [of twoPages 1 8 0] none by blast
  ultimately show ?thesis using a by simp
qed


section \<open>Properties of calculatePages\<close>

lemma pageText_savePage: "pageText (savePage chapter st) = concat (cs_currentPageContent st)"
  by (simp add: pageText_def savePage_def)

lemma splitLargeBlock_pages:
  "\<exists>new. splitLargeBlock tm chapter block pid pages = pages @ new
         \<and> concat (map pageText new) = block_text block
         \<and> (totalCharacters (getPageCapacity tm) \<le> 0 \<longrightarrow> (\<forall>p \<in> set new. length (pageText p) \<le> 1))"
proof -
  obtain new where new:
    "splitLargeBlock tm chapter block pid pages = pages @ new"
    "concat (map pageText new) = block_text block"
    "totalCharacters (getPageCapacity tm) \<le> 0 \<or> linesPerPage (getPageCapacity tm) \<le> 0
       \<longrightarrow> map page_content new = map (\<lambda>ch. [[ch]]) (block_text block)"
    unfolding splitLargeBlock_def
    using splitLargeBlockLoop_pages [of tm "chapter_id chapter" "block_id block" "block_text block" 0
            pid pages]
    by blast
  have "\<forall>p \<in> set new. length (pageText p) \<le> 1" if "totalCharacters (getPageCapacity tm) \<le> 0"
  proof
    fix p assume "p \<in> set new"
    then have "page_content p \<in> set (map page_content new)" by simp
    with that new(3) have "page_content p \<in> set (map (\<lambda>ch. [[ch]]) (block_text block))" by simp
    then show "length (pageText p) \<le> 1" by (auto simp: pageText_def)
  qed
  with new(1,2) show ?thesis by blast
qed

lemma saveCurrentPage_emitted:
  "concat (map pageText (cs_pages (saveCurrentPage ch st))) = emitted st"
  by (auto simp: saveCurrentPage_def emitted_def pageText_savePage)

lemma blockStep_emitted:
  "emitted (blockStep tm ch i st) = emitted st @ block_text (blocks ch ! i)"
proof -
  let ?block = "blocks ch ! i"
  show ?thesis
  proof (cases "int (length (concat (cs_currentPageContent st @ [block_text ?block]))) \<le> effectiveCapacity tm")
    case True
    then show ?thesis by (simp add: blockStep_def Let_def emitted_def)
  next
    case False
    define st1 where "st1 = saveCurrentPage ch st"
    have e1: "concat (map pageText (cs_pages st1)) = emitted st"
      unfolding st1_def by (rule saveCurrentPage_emitted)
    show ?thesis
    proof (cases "int (length (block_text ?block)) > effectiveCapacity tm")
      case large: True
      obtain new where "splitLargeBlock tm ch ?block (cs_pageId st1) (cs_pages st1) = cs_pages st1 @ new"
        "concat (map pageText new) = block_text ?block"
        using splitLargeBlock_pages by blast
      then show ?thesis using False large e1
        by (simp add: blockStep_def Let_def emitted_def st1_def [symmetric])
    next
      case small: False
      then show ?thesis using False e1
        by (simp add: blockStep_def Let_def emitted_def st1_def [symmetric])
    qed
  qed
qed

lemma blockLoop_emitted:
  "emitted (blockLoop tm ch i st) = emitted st @ concat (map block_text (drop i (blocks ch)))"
proof (induction tm ch i st rule: blockLoop.induct)
  case (1 tm ch i st)
  show ?case
  proof (cases "i < length (blocks ch)")
    case True
    have "drop i (blocks ch) = blocks ch ! i # drop (i + 1) (blocks ch)"
      using True by (simp add: Cons_nth_drop_Suc)
    then show ?thesis using True 1 blockStep_emitted [of tm ch i st]
      by (subst blockLoop.simps) simp
  next
    case False
    then show ?thesis by (subst blockLoop.simps) simp
  qed
qed

lemma chapterStep_text:
  "concat (map pageText (fst (chapterStep tm acc ch)))
   = concat (map pageText (fst acc)) @ concat (map block_text (blocks ch))"
proof -
  define st0 where "st0 = \<lparr>cs_pages = fst acc, cs_pageId = snd acc, cs_currentPageContent = [],
                 cs_currentPageCharacterCount = 0, cs_currentBlockStartIndex = 0\<rparr>"
  have "emitted (blockLoop tm ch 0 st0) = emitted st0 @ concat (map block_text (blocks ch))"
    using blockLoop_emitted [of tm ch 0 st0] by simp
  moreover have "emitted st0 = concat (map pageText (fst acc))" by (simp add: emitted_def st0_def)
  moreover have "concat (map pageText (fst (chapterStep tm acc ch))) = emitted (blockLoop tm ch 0 st0)"
    by (simp add: chapterStep_def Let_def st0_def [symmetric] saveCurrentPage_emitted)
  ultimately show ?thesis by simp
qed

lemma foldl_chapterStep_text:
  "concat (map pageText (fst (foldl (chapterStep tm) acc chs)))
   = concat (map pageText (fst acc)) @ concat (map block_text (concat (map blocks chs)))"
  by (induction chs arbitrary: acc) (simp_all add: chapterStep_text)

lemma calculatePages_text: "concat (map pageText (calculatePages tm book)) = bookText book"
  by (simp add: calculatePages_def bookText_def foldl_chapterStep_text)

lemma saveCurrentPage_within:
  "withinDefault st \<Longrightarrow> \<forall>p \<in> set (cs_pages (saveCurrentPage ch st)). length (pageText p) \<le> 1000"
  by (auto simp: saveCurrentPage_def withinDefault_def pageText_savePage)

lemma blockStep_within:
  assumes "withinDefault st" and cap: "totalCharacters (getPageCapacity tm) \<le> 0"
  shows "withinDefault (blockStep tm ch i st)"
proof -
  let ?block = "blocks ch ! i"
  have eff: "effectiveCapacity tm = 1000" using cap by (simp add: effectiveCapacity_def)
  show ?thesis
  proof (cases "int (length (concat (cs_currentPageContent st @ [block_text ?block]))) \<le> effectiveCapacity tm")
    case True
    then show ?thesis using assms(1) eff by (simp add: blockStep_def Let_def withinDefault_def)
  next
    case False
    define st1 where "st1 = saveCurrentPage ch st"
    have w1: "\<forall>p \<in> set (cs_pages st1). length (pageText p) \<le> 1000"
      unfolding st1_def using assms(1) by (rule saveCurrentPage_within)
    show ?thesis
    proof (cases "int (length (block_text ?block)) > effectiveCapacity tm")
      case large: True
      obtain new where "splitLargeBlock tm ch ?block (cs_pageId st1) (cs_pages st1) = cs_pages st1 @ new"
        "\<forall>p \<in> set new. length (pageText p) \<le> 1"
        using splitLargeBlock_pages cap by blast
      then show ?thesis using False large w1
        by (auto simp: blockStep_def Let_def withinDefault_def st1_def [symmetric])
    next
      case small: False
      then show ?thesis using False w1 eff
        by (auto simp: blockStep_def Let_def withinDefault_def st1_def [symmetric])
    qed
  qed
qed

lemma blockLoop_within:
  "withinDefault st \<Longrightarrow> totalCharacters (getPageCapacity tm) \<le> 0
   \<Longrightarrow> withinDefault (blockLoop tm ch i st)"
proof (induction tm ch i st rule: blockLoop.induct)
  case (1 tm ch i st)
  show ?case
  proof (cases "i < length (blocks ch)")
    case True
    then show ?thesis using 1 blockStep_within [of st tm ch i]
      by (subst blockLoop.simps) simp
  next
    case False
    then show ?thesis using 1 by (subst blockLoop.simps) simp
  qed
qed

lemma chapterStep_within:
  assumes "\<forall>p \<in> set (fst acc). length (pageText p) \<le> 1000"
    and "totalCharacters (getPageCapacity tm) \<le> 0"
  shows "\<forall>p \<in> set (fst (chapterStep tm acc ch)). length (pageText p) \<le> 1000"
proof -
  define st0 where "st0 = \<lparr>cs_pages = fst acc, cs_pageId = snd acc, cs_currentPageContent = [],
                 cs_currentPageCharacterCount = 0, cs_currentBlockStartIndex = 0\<rparr>"
  have "withinDefault st0" using assms(1) by (simp add: withinDefault_def st0_def)
  then have "withinDefault (blockLoop tm ch 0 st0)" using assms(2) by (rule blockLoop_within)
  then show ?thesis
    by (simp add: chapterStep_def Let_def st0_def [symmetric] saveCurrentPage_within)
qed

lemma foldl_chapterStep_within:
  "\<forall>p \<in> set (fst acc). length (pageText p) \<le> 1000 \<Longrightarrow> totalCharacters (getPageCapacity tm) \<le> 0
   \<Longrightarrow> \<forall>p \<in> set (fst (foldl (chapterStep tm) acc chs)). length (pageText p) \<le> 1000"
proof (induction chs arbitrary: acc)
  case Nil
  then show ?case by simp
next
  case (Cons c chs)
  show ?case using Cons.IH [OF chapterStep_within [OF Cons.prems(1) Cons.prems(2)] Cons.prems(2)]
    by simp
qed

text \<open>
  C5, as the code has it. When \<open>PaginationCalculator\<close> is built on invalid geometry (width
  or height zero or negative, so that the page capacity is 0), \<open>calculatePages\<close> does not
  fail: it takes the default capacity of 1000 characters and returns a page list that
  holds the whole text of the book, no page holding more than 1000 characters.
\<close>

theorem calculatePages_invalid_geometry_default:
  assumes "containerWidth tm \<le> 0 \<or> containerHeight tm \<le> 0"
  shows "effectiveCapacity tm = 1000
         \<and> concat (map pageText (calculatePages tm book)) = bookText book
         \<and> (\<forall>p \<in> set (calculatePages tm book). length (pageText p) \<le> 1000)"
proof -
  have cap: "totalCharacters (getPageCapacity tm) \<le> 0"
    using assms by (simp add: getPageCapacity_def)
  have "\<forall>p \<in> set (fst (foldl (chapterStep tm) ([], 1) (chapters book))). length (pageText p) \<le> 1000"
    by (rule foldl_chapterStep_within) (simp_all add: cap)
  then show ?thesis
    using cap calculatePages_text [of tm book]
    by (simp add: effectiveCapacity_def calculatePages_def)
qed

lemma calculatePages_bookAB:
  "calculatePages measurer00 bookAB =
     [\<lparr>page_id = 1,
       position = \<lparr>pos_chapterId = 1, pos_blockId = 1, characterStart = 0, characterEnd = 2\<rparr>,
       page_content = [[97, 98]], page_totalCharacters = 2\<rparr>]"
  by (simp add: calculatePages_def bookAB_def chapterStep_def Let_def blockLoop.simps blockStep_def
        effectiveCapacity_def capacity_measurer00 saveCurrentPage_def savePage_def)

text \<open>
  C5 as stated fails: on a container of width 0 the capacity is 0, the default 1000 is
  taken, and a one-block book is returned as one page; no error is raised.
\<close>

theorem calculatePages_invalid_geometry_counterexample:
  "containerWidth measurer00 \<le> 0
   \<and> totalCharacters (getPageCapacity measurer00) = 0
   \<and> effectiveCapacity measurer00 = 1000
   \<and> calculatePages measurer00 bookAB =
       [\<lparr>page_id = 1,
         position = \<lparr>pos_chapterId = 1, pos_blockId = 1, characterStart = 0, characterEnd = 2\<rparr>,
         page_content = [[97, 98]], page_totalCharacters = 2\<rparr>]"
proof -
  have "containerWidth measurer00 \<le> 0" by (simp add: measurer00_def)
  then show ?thesis
    by (simp add: calculatePages_bookAB effectiveCapacity_def capacity_measurer00)
qed

theorem calculatePages_invalid_geometry_default_witness:
  "(containerWidth measurer00 \<le> 0 \<or> containerHeight measurer00 \<le> 0)
   \<and> effectiveCapacity measurer00 = 1000
   \<and> length (calculatePages measurer00 bookAB) = 1
   \<and> concat (map pageText (calculatePages measurer00 bookAB)) = [97, 98]"
proof -
  have w: "containerWidth measurer00 \<le> 0 \<or> containerHeight measurer00 \<le> 0"
    by (simp add: measurer00_def)
  have "bookText bookAB = [97, 98]" by (simp add: bookText_def bookAB_def)
  with w calculatePages_invalid_geometry_default [OF w, of bookAB] show ?thesis
    by (simp add: calculatePages_bookAB)
qed

section \<open>Properties of the fitting search\<close>

lemma monotone_overflow:
  assumes "monotoneInPrefix m t b s" and "\<not> fitsPrefix m w t b s i" and "i \<le> j" and "j \<le> length t"
  shows "\<not> fitsPrefix m w t b s j"
proof -
  have "m (b @ s @ take i t) \<le> m (b @ s @ take j t)"
    using assms(1,3,4) unfolding monotoneInPrefix_def by blast
  with assms(2) show ?thesis unfolding fitsPrefix_def by auto
qed

lemma binarySearchLoop_prefix:
  assumes "result = take (length result) t" and "length result \<le> length t"
    and "0 \<le> left"
  shows "binarySearchLoop m w t b s left right result
         = take (length (binarySearchLoop m w t b s left right result)) t
         \<and> length (binarySearchLoop m w t b s left right result) \<le> length t"
  using assms
proof (induction "nat (right - left + 1)" arbitrary: left right result rule: less_induct)
  case less
  show ?case
  proof (cases "left \<le> right")
    case False
    then show ?thesis using less.prems by (subst (1 2 3) binarySearchLoop.simps) simp
  next
    case True
    define mid where "mid = (left + right) div 2"
    have mid: "left \<le> mid" "mid \<le> right" using True by (simp_all add: mid_def)
    let ?test = "substring t 0 (nat mid)"
    have tp: "?test = take (length ?test) t" "length ?test \<le> length t"
      by (simp_all add: substring_def min_def)
    show ?thesis
    proof (cases "m (b @ s @ ?test) \<le> w")
      case fit: True
      have step: "binarySearchLoop m w t b s left right result
                  = binarySearchLoop m w t b s (mid + 1) right ?test"
        using True fit by (subst binarySearchLoop.simps) (simp add: Let_def mid_def)
      have "nat (right - (mid + 1) + 1) < nat (right - left + 1)" using mid True by simp
      from less.hyps [OF this tp] mid less.prems(3) show ?thesis unfolding step by simp
    next
      case nofit: False
      have step: "binarySearchLoop m w t b s left right result
                  = binarySearchLoop m w t b s left (mid - 1) result"
        using True nofit by (subst binarySearchLoop.simps) (simp add: Let_def mid_def)
      have "nat ((mid - 1) - left + 1) < nat (right - left + 1)" using mid True by simp
      from less.hyps [OF this less.prems] show ?thesis unfolding step by simp
    qed
  qed
qed

lemma binarySearchLoop_longest:
  assumes mono: "monotoneInPrefix m t b s"
    and "0 \<le> left" and "right \<le> int (length t)" and "left \<le> right + 1"
    and "\<forall>k. right < int k \<and> k \<le> length t \<longrightarrow> \<not> fitsPrefix m w t b s k"
    and "(left = 0 \<and> result = []) \<or>
         (0 < left \<and> result = take (nat (left - 1)) t \<and> fitsPrefix m w t b s (nat (left - 1)))"
  shows "(\<forall>k. length (binarySearchLoop m w t b s left right result) < k \<and> k \<le> length t
              \<longrightarrow> \<not> fitsPrefix m w t b s k)
         \<and> (fitsPrefix m w t b s 0
              \<longrightarrow> fitsPrefix m w t b s (length (binarySearchLoop m w t b s left right result)))
         \<and> (\<not> fitsPrefix m w t b s 0 \<longrightarrow> binarySearchLoop m w t b s left right result = [])"
  using assms(2-)
proof (induction "nat (right - left + 1)" arbitrary: left right result rule: less_induct)
  case less
  show ?case
  proof (cases "left \<le> right")
    case False
    then have eq: "binarySearchLoop m w t b s left right result = result"
      by (subst binarySearchLoop.simps) simp
    from False less.prems(3) have lr: "left = right + 1" by simp
    show ?thesis
    proof (cases "left = 0")
      case True
      with less.prems(5) have r: "result = []" by auto
      from True lr have "right = - 1" by simp
      with less.prems(4) have all: "\<forall>k. k \<le> length t \<longrightarrow> \<not> fitsPrefix m w t b s k" by simp
      then have "\<not> fitsPrefix m w t b s 0" by simp
      with all r show ?thesis unfolding eq by simp
    next
      case False
      with less.prems(1,5) have r: "result = take (nat (left - 1)) t"
        and f: "fitsPrefix m w t b s (nat (left - 1))" by auto
      have len: "length result = nat right" using r lr less.prems(2) by simp
      have "\<not> fitsPrefix m w t b s k" if "length result < k" "k \<le> length t" for k
        using less.prems(4) that len by auto
      moreover have "fitsPrefix m w t b s (length result)" using f len lr by simp
      moreover have "fitsPrefix m w t b s 0"
      proof (rule ccontr)
        assume "\<not> fitsPrefix m w t b s 0"
        from monotone_overflow [OF mono this, of "nat (left - 1)"] less.prems(2) lr f
        show False by simp
      qed
      ultimately show ?thesis unfolding eq by blast
    qed
  next
    case True
    define mid where "mid = (left + right) div 2"
    have mid: "left \<le> mid" "mid \<le> right" using True by (simp_all add: mid_def)
    let ?test = "substring t 0 (nat mid)"
    have test: "?test = take (nat mid) t" by (simp add: substring_def)
    show ?thesis
    proof (cases "m (b @ s @ ?test) \<le> w")
      case fit: True
      have step: "binarySearchLoop m w t b s left right result
                  = binarySearchLoop m w t b s (mid + 1) right ?test"
        using True fit by (subst binarySearchLoop.simps) (simp add: Let_def mid_def)
      have dec: "nat (right - (mid + 1) + 1) < nat (right - left + 1)" using mid True by simp
      have f: "fitsPrefix m w t b s (nat mid)" using fit by (simp add: fitsPrefix_def test)
      show ?thesis unfolding step
      proof (rule less.hyps [OF dec])
        show "0 \<le> mid + 1" using mid less.prems(1) by simp
        show "right \<le> int (length t)" by (rule less.prems(2))
        show "mid + 1 \<le> right + 1" using mid by simp
        show "\<forall>k. right < int k \<and> k \<le> length t \<longrightarrow> \<not> fitsPrefix m w t b s k"
          by (rule less.prems(4))
        show "mid + 1 = 0 \<and> ?test = [] \<or>
              0 < mid + 1 \<and> ?test = take (nat (mid + 1 - 1)) t
              \<and> fitsPrefix m w t b s (nat (mid + 1 - 1))"
          using mid less.prems(1) f test by simp
      qed
    next
      case nofit: False
      have step: "binarySearchLoop m w t b s left right result
                  = binarySearchLoop m w t b s left (mid - 1) result"
        using True nofit by (subst binarySearchLoop.simps) (simp add: Let_def mid_def)
      have dec: "nat ((mid - 1) - left + 1) < nat (right - left + 1)" using mid True by simp
      have nf: "\<not> fitsPrefix m w t b s (nat mid)" using nofit by (simp add: fitsPrefix_def test)
      show ?thesis unfolding step
      proof (rule less.hyps [OF dec])
        show "0 \<le> left" by (rule less.prems(1))
        show "mid - 1 \<le> int (length t)" using mid less.prems(2) by simp
        show "left \<le> mid - 1 + 1" using mid by simp
        show "\<forall>k. mid - 1 < int k \<and> k \<le> length t \<longrightarrow> \<not> fitsPrefix m w t b s k"
        proof (intro allI impI)
          fix k assume k: "mid - 1 < int k \<and> k \<le> length t"
          then have "nat mid \<le> k" by linarith
          with monotone_overflow [OF mono nf, of k] k show "\<not> fitsPrefix m w t b s k" by simp
        qed
        show "left = 0 \<and> result = [] \<or>
              0 < left \<and> result = take (nat (left - 1)) t \<and> fitsPrefix m w t b s (nat (left - 1))"
          by (rule less.prems(5))
      qed
    qed
  qed
qed

text \<open>
  C3, as the code has it. When the measured width of base, separator and prefix does not
  decrease as the prefix grows, the binary search of \<open>findFittingText\<close> returns, before the
  kinsoku adjustment, a prefix of the candidate text such that every strictly longer
  prefix overflows. When the empty prefix fits (base and separator alone are within the
  page width) the returned prefix fits too, so it is the longest prefix that fits; when
  even the empty prefix overflows, the search returns the empty string.
\<close>

theorem binarySearchPrefix_longest:
  assumes "monotoneInPrefix measureTextWidth t baseContent separator"
  shows "binarySearchPrefix measureTextWidth t maxWidth baseContent separator
           = take (length (binarySearchPrefix measureTextWidth t maxWidth baseContent separator)) t
         \<and> length (binarySearchPrefix measureTextWidth t maxWidth baseContent separator) \<le> length t
         \<and> (\<forall>k. length (binarySearchPrefix measureTextWidth t maxWidth baseContent separator) < k
                  \<and> k \<le> length t
                \<longrightarrow> \<not> fitsPrefix measureTextWidth maxWidth t baseContent separator k)
         \<and> (fitsPrefix measureTextWidth maxWidth t baseContent separator 0
              \<longrightarrow> fitsPrefix measureTextWidth maxWidth t baseContent separator
                    (length (binarySearchPrefix measureTextWidth t maxWidth baseContent separator)))
         \<and> (\<not> fitsPrefix measureTextWidth maxWidth t baseContent separator 0
              \<longrightarrow> binarySearchPrefix measureTextWidth t maxWidth baseContent separator = [])"
proof -
  have "binarySearchPrefix measureTextWidth t maxWidth baseContent separator
           = take (length (binarySearchPrefix measureTextWidth t maxWidth baseContent separator)) t
        \<and> length (binarySearchPrefix measureTextWidth t maxWidth baseContent separator) \<le> length t"
    unfolding binarySearchPrefix_def
    by (rule binarySearchLoop_prefix) simp_all
  moreover have "(\<forall>k. length (binarySearchPrefix measureTextWidth t maxWidth baseContent separator) < k
                  \<and> k \<le> length t
                \<longrightarrow> \<not> fitsPrefix measureTextWidth maxWidth t baseContent separator k)
         \<and> (fitsPrefix measureTextWidth maxWidth t baseContent separator 0
              \<longrightarrow> fitsPrefix measureTextWidth maxWidth t baseContent separator
                    (length (binarySearchPrefix measureTextWidth t maxWidth baseContent separator)))
         \<and> (\<not> fitsPrefix measureTextWidth maxWidth t baseContent separator 0
              \<longrightarrow> binarySearchPrefix measureTextWidth t maxWidth baseContent separator = [])"
    unfolding binarySearchPrefix_def
    by (rule binarySearchLoop_longest [OF assms]) auto
  ultimately show ?thesis by blast
qed

lemma monotone_lengthWidth: "monotoneInPrefix lengthWidth t b s"
  by (simp add: monotoneInPrefix_def lengthWidth_def min_def)

lemma bs1: "binarySearchPrefix lengthWidth [99] 1 [97, 98] [10] = []"
  by (simp add: binarySearchPrefix_def binarySearchLoop.simps Let_def substring_def lengthWidth_def)

text \<open>
  C3 as stated fails where nothing fits: with the page content \<open>ab\<close>, a newline as
  separator and page width 1, the width is monotone, the search returns the empty
  prefix, and that prefix overflows.
\<close>

theorem binarySearchPrefix_longest_counterexample:
  "monotoneInPrefix lengthWidth [99] [97, 98] [10]
   \<and> binarySearchPrefix lengthWidth [99] 1 [97, 98] [10] = []
   \<and> \<not> fitsPrefix lengthWidth 1 [99] [97, 98] [10]
         (length (binarySearchPrefix lengthWidth [99] 1 [97, 98] [10]))"
  by (simp add: monotone_lengthWidth bs1 fitsPrefix_def lengthWidth_def)

theorem binarySearchPrefix_longest_witness:
  "monotoneInPrefix lengthWidth [99, 100, 101, 102] [97, 98] [10]
   \<and> fitsPrefix lengthWidth 5 [99, 100, 101, 102] [97, 98] [10] 0
   \<and> binarySearchPrefix lengthWidth [99, 100, 101, 102] 5 [97, 98] [10] = [99, 100]"
proof -
  let ?t = "[99, 100, 101, 102] :: jsstring"
  let ?r = "binarySearchPrefix lengthWidth ?t 5 [97, 98] [10]"
  have mono: "monotoneInPrefix lengthWidth ?t [97, 98] [10]" by (rule monotone_lengthWidth)
  have f0: "fitsPrefix lengthWidth 5 ?t [97, 98] [10] 0" by (simp add: fitsPrefix_def lengthWidth_def)
  have f2: "fitsPrefix lengthWidth 5 ?t [97, 98] [10] 2" by (simp add: fitsPrefix_def lengthWidth_def)
  from binarySearchPrefix_longest [OF mono, of 5]
  have pre: "?r = take (length ?r) ?t" and le: "length ?r \<le> length ?t"
    and over: "\<forall>k. length ?r < k \<and> k \<le> length ?t \<longrightarrow> \<not> fitsPrefix lengthWidth 5 ?t [97, 98] [10] k"
    and fit: "fitsPrefix lengthWidth 5 ?t [97, 98] [10] 0 \<longrightarrow> fitsPrefix lengthWidth 5 ?t [97, 98] [10] (length ?r)"
    by blast+
  have "length (take (length ?r) ?t) = length ?r" using le by simp
  with fit f0 have "length ?r \<le> 2" unfolding fitsPrefix_def lengthWidth_def by simp
  moreover from over f2 have "\<not> length ?r < 2" by auto
  ultimately have "length ?r = 2" by simp
  with pre have "?r = [99, 100]" by (simp add: numeral_2_eq_2)
  with mono f0 show ?thesis by simp
qed

lemma binarySearchPrefix_is_prefix:
  "binarySearchPrefix m t w b s = take (length (binarySearchPrefix m t w b s)) t"
  unfolding binarySearchPrefix_def
  using binarySearchLoop_prefix [of "[]" t 0 m w b s "int (length t)"] by simp

text \<open>
  What the kinsoku adjustment of the hook does. When the prefix found by the binary
  search is followed by one of the six characters of the test, \<open>findFittingText\<close> returns
  the prefix without its last character if it has more than one: the next page then
  begins with that last character, whatever it is, and the character of the test is its
  second character. A prefix of one character is returned unchanged.
\<close>

lemma findFittingText_one_back:
  assumes "0 < length (binarySearchPrefix measureTextWidth t maxWidth baseContent separator)"
    and "length (binarySearchPrefix measureTextWidth t maxWidth baseContent separator) < length t"
    and "kinsokuFollower (t ! length (binarySearchPrefix measureTextWidth t maxWidth baseContent separator))"
  shows "(1 < length (binarySearchPrefix measureTextWidth t maxWidth baseContent separator) \<longrightarrow>
            findFittingText measureTextWidth t maxWidth baseContent separator
              = take (length (binarySearchPrefix measureTextWidth t maxWidth baseContent separator) - 1) t
            \<and> substringFrom t (length (findFittingText measureTextWidth t maxWidth baseContent separator))
              = t ! (length (binarySearchPrefix measureTextWidth t maxWidth baseContent separator) - 1)
                # t ! length (binarySearchPrefix measureTextWidth t maxWidth baseContent separator)
                # drop (length (binarySearchPrefix measureTextWidth t maxWidth baseContent separator) + 1) t)
         \<and> (length (binarySearchPrefix measureTextWidth t maxWidth baseContent separator) = 1 \<longrightarrow>
            findFittingText measureTextWidth t maxWidth baseContent separator
              = binarySearchPrefix measureTextWidth t maxWidth baseContent separator)"
proof -
  define r where "r = binarySearchPrefix measureTextWidth t maxWidth baseContent separator"
  define n where "n = length r"
  have r: "r = take n t" unfolding n_def r_def by (rule binarySearchPrefix_is_prefix)
  have n: "0 < n" "n < length t" "kinsokuFollower (t ! n)"
    using assms by (simp_all add: n_def r_def)
  have adj: "findFittingText measureTextWidth t maxWidth baseContent separator
             = (if n > 1 then butlast r else r)"
    using n by (simp add: findFittingText_def kinsokuAdjust_def r_def [symmetric] n_def [symmetric] Let_def)
  have bl: "butlast r = take (n - 1) t" using r n by (metis butlast_take less_imp_le_nat)
  have "drop (n - 1) t = t ! (n - 1) # t ! n # drop (n + 1) t" if "1 < n"
  proof -
    have "drop (n - 1) t = t ! (n - 1) # drop n t"
      using n that by (metis Cons_nth_drop_Suc Suc_diff_1 less_imp_diff_less)
    also have "drop n t = t ! n # drop (n + 1) t" using n by (simp add: Cons_nth_drop_Suc)
    finally show ?thesis .
  qed
  moreover have "length (take (n - 1) t) = n - 1" using n by simp
  ultimately show ?thesis
    unfolding r_def [symmetric] n_def [symmetric] using adj bl
    by (auto simp: substringFrom_def)
qed

section \<open>Properties of the position finder\<close>

text \<open>
  C8, as the code has it. For a page carrying metadata whose chapter id is not 0 and
  whose list of block ids starts with an id that is not 0, \<open>getContentPositionFromPage\<close>
  returns a position with the chapter id of the metadata, with \<open>startBlockId\<close> as block id
  when that is present and not 0 and the first block id otherwise, and with the offset
  \<open>max(0, min(offset, content.length - 1))\<close>. For a page whose metadata has chapter id 0,
  no block id, or 0 as first block id, it returns \<open>null\<close>.
\<close>

theorem getContentPositionFromPage_result:
  assumes "metadata pg = Some m"
  shows "(md_chapterId m \<noteq> 0 \<and> md_blockIds m \<noteq> [] \<and> hd (md_blockIds m) \<noteq> 0 \<longrightarrow>
            (\<exists>pos. getContentPositionFromPage pg offset = Some pos
               \<and> chapterId pos = md_chapterId m
               \<and> (startBlockId m = Some s \<and> s \<noteq> 0 \<longrightarrow> blockId pos = s)
               \<and> (startBlockId m = None \<or> startBlockId m = Some 0 \<longrightarrow> blockId pos = hd (md_blockIds m))
               \<and> characterOffset pos = max 0 (min offset (int (length (pd_content pg)) - 1))))
         \<and> (md_chapterId m = 0 \<or> md_blockIds m = [] \<or> hd (md_blockIds m) = 0 \<longrightarrow>
            getContentPositionFromPage pg offset = None)"
  using assms
  by (cases "md_blockIds m")
     (auto simp: getContentPositionFromPage_def Let_def split: option.splits)

text \<open>
  C8 as stated fails: a page built by \<open>enrichPageWithMetadata\<close> from the block with id 0
  carries metadata, and no position is returned for it.
\<close>

theorem getContentPositionFromPage_result_counterexample:
  "metadata pageBlockZero \<noteq> None \<and> getContentPositionFromPage pageBlockZero 0 = None"
  by (simp add: pageBlockZero_def enrichPageWithMetadata_def getContentPositionFromPage_def)

theorem getContentPositionFromPage_result_witness:
  "getContentPositionFromPage pageBlockSeven 5 = Some \<lparr>chapterId = 1, blockId = 7, characterOffset = 1\<rparr>
   \<and> getContentPositionFromPage pageBlockZero 5 = None"
proof -
  have m7: "metadata pageBlockSeven = Some \<lparr>md_chapterId = 1, md_blockIds = [7, 8],
              startBlockId = Some 7, endBlockId = Some 8, endBlockCharacterOffset = None,
              characterRange = Some (0, 1)\<rparr>"
    by (simp add: pageBlockSeven_def enrichPageWithMetadata_def headOption_def lastOption_def)
  have m0: "metadata pageBlockZero = Some \<lparr>md_chapterId = 1, md_blockIds = [0],
              startBlockId = Some 0, endBlockId = Some 0, endBlockCharacterOffset = None,
              characterRange = Some (0, 1)\<rparr>"
    by (simp add: pageBlockZero_def enrichPageWithMetadata_def headOption_def lastOption_def)
  have c7: "pd_content pageBlockSeven = [97, 98]"
    by (simp add: pageBlockSeven_def enrichPageWithMetadata_def)
  from getContentPositionFromPage_result [OF m7, where s = 7 and offset = 5] c7
  obtain pos where "getContentPositionFromPage pageBlockSeven 5 = Some pos"
    "chapterId pos = 1" "blockId pos = 7" "characterOffset pos = 1"
    by auto
  then have "getContentPositionFromPage pageBlockSeven 5
             = Some \<lparr>chapterId = 1, blockId = 7, characterOffset = 1\<rparr>"
    by (cases pos) simp
  moreover from getContentPositionFromPage_result [OF m0, where s = 7 and offset = 5]
  have "getContentPositionFromPage pageBlockZero 5 = None" by simp
  ultimately show ?thesis by simp
qed

section \<open>Properties of the pagination hook\<close>

subsection \<open>Every page is built by enrichPageWithMetadata\<close>

lemma builtByHook_pushPage:
  "list_all builtByHook (calculatedPages v)
   \<Longrightarrow> list_all builtByHook
         (calculatedPages (pushPage (enrichPageWithMetadata c title chId bids cs ce off) v))"
  by (simp add: pushPage_def enrichPageWithMetadata_def builtByHook_def)

lemma builtByHook_pushChapterEndPage:
  "list_all builtByHook (calculatedPages v)
   \<Longrightarrow> list_all builtByHook
         (calculatedPages (pushChapterEndPage (enrichPageWithMetadata c title chId bids cs ce off) v))"
  by (simp add: pushChapterEndPage_def enrichPageWithMetadata_def builtByHook_def)

lemma builtByHook_placeRemaining:
  "list_all builtByHook (calculatedPages v)
   \<Longrightarrow> list_all builtByHook (calculatedPages (placeRemaining m w bid r v))"
proof (induction "length r" arbitrary: r v rule: less_induct)
  case less
  let ?next = "findFittingText m r w [] []"
  show ?case
  proof (cases "length r > 0 \<and> \<not> m r \<le> w \<and> length ?next > 0")
    case False
    then show ?thesis using less.prems
      by (subst placeRemaining.simps) (auto simp: Let_def)
  next
    case True
    define v1 where "v1 = pushPage (enrichPageWithMetadata ?next (currentChapterTitle v)
         (currentChapterId v) [bid] False False
         (Some (currentBlockProcessedLength v + length (withoutIndent ?next))))
       (v\<lparr>currentBlockProcessedLength := currentBlockProcessedLength v + length (withoutIndent ?next)\<rparr>)"
    have step: "placeRemaining m w bid r v = placeRemaining m w bid (substringFrom r (length ?next)) v1"
      using True by (subst placeRemaining.simps) (simp add: Let_def v1_def)
    have "length (substringFrom r (length ?next)) < length r"
      using True by (simp add: substringFrom_def)
    moreover have "list_all builtByHook (calculatedPages v1)"
      unfolding v1_def using less.prems by (intro builtByHook_pushPage) simp
    ultimately show ?thesis unfolding step by (rule less.hyps)
  qed
qed

lemma builtByHook_splitOnFreshPages:
  "list_all builtByHook (calculatedPages v)
   \<Longrightarrow> list_all builtByHook (calculatedPages (snd (splitOnFreshPages m w bid r v)))"
proof (induction "length r" arbitrary: r v rule: less_induct)
  case less
  let ?next = "findFittingText m r w [] []"
  show ?case
  proof (cases "length r > 0 \<and> length ?next > 0")
    case False
    then show ?thesis using less.prems
      by (subst splitOnFreshPages.simps) (auto simp: Let_def)
  next
    case True
    define v1 where "v1 = pushPage (enrichPageWithMetadata ?next (currentChapterTitle v)
         (currentChapterId v) [bid] False False
         (Some (currentBlockProcessedLength v + length (withoutIndent ?next))))
       (v\<lparr>currentBlockProcessedLength := currentBlockProcessedLength v + length (withoutIndent ?next)\<rparr>)"
    have step: "splitOnFreshPages m w bid r v = splitOnFreshPages m w bid (substringFrom r (length ?next)) v1"
      using True by (subst splitOnFreshPages.simps) (simp add: Let_def v1_def)
    have "length (substringFrom r (length ?next)) < length r"
      using True by (simp add: substringFrom_def)
    moreover have "list_all builtByHook (calculatedPages v1)"
      unfolding v1_def using less.prems by (intro builtByHook_pushPage) simp
    ultimately show ?thesis unfolding step by (rule less.hyps)
  qed
qed

lemma builtByHook_overflowWithFit:
  assumes "list_all builtByHook (calculatedPages v)"
  shows "list_all builtByHook (calculatedPages (overflowWithFit m w bid bc sep fp v))"
proof -
  have "list_all builtByHook (calculatedPages
          (pushPage (enrichPageWithMetadata c title chId bids False False off) (v\<lparr>currentBlockProcessedLength := n\<rparr>)))"
    for c title chId bids off n
    using assms by (intro builtByHook_pushPage) simp
  then show ?thesis
    unfolding overflowWithFit_def Let_def
    by (intro builtByHook_placeRemaining) simp
qed

lemma builtByHook_overflowWithoutFit:
  assumes "list_all builtByHook (calculatedPages v)"
  shows "list_all builtByHook (calculatedPages (overflowWithoutFit m w bid bc v))"
proof -
  define v1 where "v1 = (pushPage (enrichPageWithMetadata (currentPageContent v) (currentChapterTitle v)
                       (currentChapterId v) (currentBlockIds v) False False (Some (length (originalBlockText v bid))))
                     (v\<lparr>currentBlockProcessedLength := length (originalBlockText v bid)\<rparr>))
                 \<lparr>currentPageContent := [], currentBlockIds := [bid]\<rparr>"
  have b1: "list_all builtByHook (calculatedPages v1)"
    unfolding v1_def using assms builtByHook_pushPage [of "v\<lparr>currentBlockProcessedLength := length (originalBlockText v bid)\<rparr>"]
    by simp
  have b2: "list_all builtByHook (calculatedPages (snd (splitOnFreshPages m w bid bc v1)))"
    using b1 by (rule builtByHook_splitOnFreshPages)
  show ?thesis
    unfolding overflowWithoutFit_def Let_def v1_def [symmetric]
    using b1 b2 by (auto split: prod.splits)
qed

lemma builtByHook_chapterStart:
  assumes "list_all builtByHook (calculatedPages v)"
  shows "list_all builtByHook (calculatedPages (chapterStart block v))"
  unfolding chapterStart_def Let_def
  using assms builtByHook_pushChapterEndPage [OF assms] by simp

lemma calculatedPages_bookkeeping [simp]:
  "calculatedPages (rememberBlockText bid c v) = calculatedPages v"
  "calculatedPages (trackBlockId bid c v) = calculatedPages v"
  by (simp_all add: rememberBlockText_def trackBlockId_def)

lemma currentPageContent_bookkeeping [simp]:
  "currentPageContent (rememberBlockText bid c v) = currentPageContent v"
  "currentPageContent (trackBlockId bid c v) = currentPageContent v"
  by (simp_all add: rememberBlockText_def trackBlockId_def)

lemma builtByHook_placeBlock:
  assumes "list_all builtByHook (calculatedPages v)"
  shows "list_all builtByHook (calculatedPages (placeBlock m w bid bc sep tc wd v))"
  unfolding placeBlock_def Let_def
  using assms
  by (simp add: builtByHook_overflowWithFit builtByHook_overflowWithoutFit)

lemma builtByHook_textBlockStep:
  assumes "list_all builtByHook (calculatedPages v)"
  shows "list_all builtByHook (calculatedPages (textBlockStep m w block v))"
  unfolding textBlockStep_def Let_def
  using assms by (intro builtByHook_placeBlock) simp

lemma builtByHook_paginationStep:
  "list_all builtByHook (calculatedPages v)
   \<Longrightarrow> list_all builtByHook (calculatedPages (paginationStep m w v block))"
  by (simp add: paginationStep_def builtByHook_chapterStart builtByHook_textBlockStep)

lemma builtByHook_foldl:
  "list_all builtByHook (calculatedPages v)
   \<Longrightarrow> list_all builtByHook (calculatedPages (foldl (paginationStep m w) v bs))"
  by (induction bs arbitrary: v) (simp_all add: builtByHook_paginationStep)

lemma builtByHook_paginateBlocks: "list_all builtByHook (paginateBlocks m w bs)"
proof -
  have "list_all builtByHook (calculatedPages (foldl (paginationStep m w) initialVars bs))"
    by (rule builtByHook_foldl) (simp add: initialVars_def)
  then show ?thesis
    unfolding paginateBlocks_def saveLastPage_def
    using builtByHook_pushPage by auto
qed

subsection \<open>The exact match of findNearestPageToPosition\<close>

lemma findPageByBlockIdFrom_first:
  "i < length pages \<Longrightarrow> includesBlockId (pages ! i) target
   \<Longrightarrow> \<exists>j \<le> i. findPageByBlockIdFrom k pages target
                  = Some \<lparr>pageIndex = k + j, page = pages ! j, exactMatch = True\<rparr>
              \<and> includesBlockId (pages ! j) target
              \<and> (\<forall>l < j. \<not> includesBlockId (pages ! l) target)"
proof (induction pages arbitrary: k i)
  case Nil
  then show ?case by simp
next
  case (Cons pg rest)
  show ?case
  proof (cases "includesBlockId pg target")
    case True
    then show ?thesis by (intro exI [of _ 0]) simp
  next
    case False
    with Cons.prems obtain i' where i': "i = Suc i'" by (cases i) auto
    with Cons.prems have "i' < length rest" "includesBlockId (rest ! i') target" by simp_all
    from Cons.IH [OF this, of "k + 1"] obtain j where j: "j \<le> i'"
      "findPageByBlockIdFrom (k + 1) rest target
         = Some \<lparr>pageIndex = k + 1 + j, page = rest ! j, exactMatch = True\<rparr>"
      "includesBlockId (rest ! j) target" "\<forall>l < j. \<not> includesBlockId (rest ! l) target"
      by blast
    have "\<forall>l < Suc j. \<not> includesBlockId ((pg # rest) ! l) target"
      using False j(4) by (auto simp: less_Suc_eq_0_disj)
    then show ?thesis using False j i' by (intro exI [of _ "Suc j"]) simp
  qed
qed

lemma builtByHook_position_block:
  assumes "builtByHook pg" and "getContentPositionFromPage pg offset = Some pos"
  shows "includesBlockId pg (blockId pos)"
proof -
  from assms(1) obtain m where m: "metadata pg = Some m" "startBlockId m = headOption (md_blockIds m)"
    by (auto simp: builtByHook_def split: option.splits)
  from assms(2) m(1) obtain b bs where b: "md_blockIds m = b # bs"
    by (cases "md_blockIds m") (auto simp: getContentPositionFromPage_def)
  with m assms(2) have "blockId pos = b"
    by (auto simp: getContentPositionFromPage_def headOption_def Let_def split: if_splits)
  with m(1) b show ?thesis by (simp add: includesBlockId_def)
qed

text \<open>
  C7, as the code has it. For every page list produced by the pagination and every
  page \<open>p\<close> of it for which \<open>getContentPositionFromPage\<close> returns a position,
  \<open>findNearestPageToPosition\<close> applied to that position returns, through the exact match,
  the index of the first page whose \<open>blockIds\<close> contain the block id of the position.
  That index is at most the index of \<open>p\<close>, and it is the index of \<open>p\<close> exactly when no
  earlier page lists that block id.
\<close>

theorem position_round_trip_first_page:
  assumes "calculatePagination measureTextWidth actualMaxWidth book = Inr pages"
    and "i < length pages"
    and "getContentPositionFromPage (pages ! i) offset = Some pos"
  shows "\<exists>r. findNearestPageToPosition pages pos = Some r
             \<and> exactMatch r
             \<and> pageIndex r \<le> i
             \<and> page r = pages ! pageIndex r
             \<and> includesBlockId (pages ! pageIndex r) (blockId pos)
             \<and> (\<forall>j < pageIndex r. \<not> includesBlockId (pages ! j) (blockId pos))
             \<and> (pageIndex r = i \<longleftrightarrow> (\<forall>j < i. \<not> includesBlockId (pages ! j) (blockId pos)))"
proof -
  have "pages = paginateBlocks measureTextWidth actualMaxWidth (getStructuredBlocks book)"
    using assms(1) by (simp add: calculatePagination_def Let_def split: if_splits)
  then have "list_all builtByHook pages" by (simp add: builtByHook_paginateBlocks)
  with assms(2) have "builtByHook (pages ! i)" by (simp add: list_all_length)
  then have inc: "includesBlockId (pages ! i) (blockId pos)"
    using assms(3) by (rule builtByHook_position_block)
  from findPageByBlockIdFrom_first [OF assms(2) inc, of 0]
  obtain j where j: "j \<le> i"
    "findPageByBlockId pages (blockId pos) = Some \<lparr>pageIndex = j, page = pages ! j, exactMatch = True\<rparr>"
    "includesBlockId (pages ! j) (blockId pos)" "\<forall>l < j. \<not> includesBlockId (pages ! l) (blockId pos)"
    by (auto simp: findPageByBlockId_def)
  have "j = i \<longleftrightarrow> (\<forall>l < i. \<not> includesBlockId (pages ! l) (blockId pos))"
    using j(1,3,4) by (metis le_neq_implies_less)
  with j show ?thesis
    by (intro exI [of _ "\<lparr>pageIndex = j, page = pages ! j, exactMatch = True\<rparr>"])
       (simp add: findNearestPageToPosition_def)
qed

lemma structured_bookTwoChapters:
  "getStructuredBlocks bookTwoChapters =
     [\<lparr>tb_id = ChapterMarkerId 1, tb_type = TChapter, tb_content = [], tb_chapterTitle = Some [84]\<rparr>,
      \<lparr>tb_id = BlockMarkerId 1 1, tb_type = TParagraph, tb_content = [97, 98], tb_chapterTitle = Some [84]\<rparr>,
      \<lparr>tb_id = ChapterMarkerId 2, tb_type = TChapter, tb_content = [], tb_chapterTitle = Some [85]\<rparr>,
      \<lparr>tb_id = BlockMarkerId 2 1, tb_type = TParagraph, tb_content = [99, 100], tb_chapterTitle = Some [85]\<rparr>]"
  by (simp add: getStructuredBlocks_def bookTwoChapters_def chapterBlocks_def textBlockType_def)

lemma calculatePagination_bookTwoChapters:
  "calculatePagination lengthWidth 100 bookTwoChapters = Inr pagesTwoChapters"
  by (simp add: calculatePagination_def structured_bookTwoChapters paginateBlocks_def
        paginationStep_def chapterStart_def textBlockStep_def placeBlock_def rememberBlockText_def
        trackBlockId_def initialVars_def saveLastPage_def
        pushPage_def pushChapterEndPage_def enrichPageWithMetadata_def orElse_def lengthWidth_def
        originalBlockText_def headOption_def lastOption_def IDEOGRAPHIC_SPACE_def NEWLINE_def
        pagesTwoChapters_def Let_def)

text \<open>
  C7 as stated fails: in a book of two chapters whose blocks both have id 1, the position
  of the second page resolves to the first page.
\<close>

theorem position_round_trip_counterexample:
  "calculatePagination lengthWidth 100 bookTwoChapters = Inr pagesTwoChapters
   \<and> getContentPositionFromPage (pagesTwoChapters ! 1) 0
       = Some \<lparr>chapterId = 2, blockId = 1, characterOffset = 0\<rparr>
   \<and> map_option pageIndex
        (findNearestPageToPosition pagesTwoChapters \<lparr>chapterId = 2, blockId = 1, characterOffset = 0\<rparr>)
       = Some 0"
  by (simp add: calculatePagination_bookTwoChapters)
     (simp add: pagesTwoChapters_def getContentPositionFromPage_def findNearestPageToPosition_def
        findPageByBlockId_def includesBlockId_def)

theorem position_round_trip_first_page_witness:
  "calculatePagination lengthWidth 100 bookTwoChapters = Inr pagesTwoChapters
   \<and> (1::nat) < length pagesTwoChapters
   \<and> getContentPositionFromPage (pagesTwoChapters ! 1) 0
       = Some \<lparr>chapterId = 2, blockId = 1, characterOffset = 0\<rparr>
   \<and> (\<exists>r. findNearestPageToPosition pagesTwoChapters \<lparr>chapterId = 2, blockId = 1, characterOffset = 0\<rparr>
            = Some r \<and> exactMatch r \<and> pageIndex r \<le> 1)"
proof -
  have len: "(1::nat) < length pagesTwoChapters" by (simp add: pagesTwoChapters_def)
  have pos: "getContentPositionFromPage (pagesTwoChapters ! 1) 0
             = Some \<lparr>chapterId = 2, blockId = 1, characterOffset = 0\<rparr>"
    by (simp add: pagesTwoChapters_def getContentPositionFromPage_def)
  from position_round_trip_first_page [OF calculatePagination_bookTwoChapters len pos]
  show ?thesis using calculatePagination_bookTwoChapters len pos by blast
qed

subsection \<open>The page contents depend on the current page only\<close>

lemma sameProgress_refl:
  "currentPageContent v = currentPageContent v' \<Longrightarrow> sameProgress v v v' v'"
  by (simp add: sameProgress_def)

lemma sameProgress_trans:
  "sameProgress v u v' u' \<Longrightarrow> sameProgress u t u' t' \<Longrightarrow> sameProgress v t v' t'"
  by (auto simp: sameProgress_def)

lemma sameProgress_current:
  "sameProgress v u v' u' \<Longrightarrow> currentPageContent u = currentPageContent u'"
  by (auto simp: sameProgress_def)

lemma pageContents_pushPage:
  "pageContents (pushPage (enrichPageWithMetadata c title chId bids cs ce off) v) = pageContents v @ [c]"
  by (simp add: pageContents_def pushPage_def enrichPageWithMetadata_def)

lemma pageContents_pushChapterEndPage:
  "pageContents (pushChapterEndPage (enrichPageWithMetadata c title chId bids cs ce off) v)
   = pageContents v @ [c]"
  by (simp add: pageContents_def pushChapterEndPage_def enrichPageWithMetadata_def)

lemma currentPageContent_pushPage [simp]:
  "currentPageContent (pushPage pd v) = currentPageContent v"
  by (simp add: pushPage_def)

lemma currentPageContent_pushChapterEndPage [simp]:
  "currentPageContent (pushChapterEndPage pd v) = currentPageContent v"
  by (simp add: pushChapterEndPage_def)

lemma pageContents_updates [simp]:
  "pageContents (v\<lparr>currentPageContent := c\<rparr>) = pageContents v"
  "pageContents (v\<lparr>currentBlockIds := bs\<rparr>) = pageContents v"
  "pageContents (v\<lparr>currentBlockProcessedLength := n\<rparr>) = pageContents v"
  "pageContents (v\<lparr>blockTexts := bt\<rparr>) = pageContents v"
  "pageContents (v\<lparr>lastBlockCharacterOffset := n\<rparr>) = pageContents v"
  "pageContents (v\<lparr>currentChapterTitle := ti\<rparr>) = pageContents v"
  "pageContents (v\<lparr>currentChapterId := ci\<rparr>) = pageContents v"
  by (simp_all add: pageContents_def)

lemma sameProgress_placeRemaining:
  "currentPageContent v = currentPageContent v'
   \<Longrightarrow> sameProgress v (placeRemaining m w bid r v) v' (placeRemaining m w bid' r v')"
proof (induction "length r" arbitrary: r v v' rule: less_induct)
  case less
  let ?next = "findFittingText m r w [] []"
  show ?case
  proof (cases "length r > 0 \<and> \<not> m r \<le> w \<and> length ?next > 0")
    case False
    then show ?thesis using less.prems
      by (subst (1 2) placeRemaining.simps) (auto simp: Let_def sameProgress_def)
  next
    case True
    define v1 where "v1 = pushPage (enrichPageWithMetadata ?next (currentChapterTitle v)
         (currentChapterId v) [bid] False False
         (Some (currentBlockProcessedLength v + length (withoutIndent ?next))))
       (v\<lparr>currentBlockProcessedLength := currentBlockProcessedLength v + length (withoutIndent ?next)\<rparr>)"
    define v1' where "v1' = pushPage (enrichPageWithMetadata ?next (currentChapterTitle v')
         (currentChapterId v') [bid'] False False
         (Some (currentBlockProcessedLength v' + length (withoutIndent ?next))))
       (v'\<lparr>currentBlockProcessedLength := currentBlockProcessedLength v' + length (withoutIndent ?next)\<rparr>)"
    have step: "placeRemaining m w bid r v = placeRemaining m w bid (substringFrom r (length ?next)) v1"
      using True by (subst placeRemaining.simps) (simp add: Let_def v1_def)
    have step': "placeRemaining m w bid' r v' = placeRemaining m w bid' (substringFrom r (length ?next)) v1'"
      using True by (subst placeRemaining.simps) (simp add: Let_def v1'_def)
    have dec: "length (substringFrom r (length ?next)) < length r"
      using True by (simp add: substringFrom_def)
    have cur: "currentPageContent v1 = currentPageContent v1'"
      using less.prems by (simp add: v1_def v1'_def)
    have first: "sameProgress v v1 v' v1'"
      using cur by (simp add: sameProgress_def v1_def v1'_def pageContents_pushPage)
    show ?thesis unfolding step step'
      using first less.hyps [OF dec cur] by (rule sameProgress_trans)
  qed
qed

lemma sameProgress_splitOnFreshPages:
  "currentPageContent v = currentPageContent v'
   \<Longrightarrow> sameProgress v (snd (splitOnFreshPages m w bid r v)) v' (snd (splitOnFreshPages m w bid' r v'))
       \<and> fst (splitOnFreshPages m w bid r v) = fst (splitOnFreshPages m w bid' r v')"
proof (induction "length r" arbitrary: r v v' rule: less_induct)
  case less
  let ?next = "findFittingText m r w [] []"
  show ?case
  proof (cases "length r > 0 \<and> length ?next > 0")
    case False
    then show ?thesis using less.prems
      by (subst (1 2 3 4) splitOnFreshPages.simps) (auto simp: Let_def sameProgress_def)
  next
    case True
    define v1 where "v1 = pushPage (enrichPageWithMetadata ?next (currentChapterTitle v)
         (currentChapterId v) [bid] False False
         (Some (currentBlockProcessedLength v + length (withoutIndent ?next))))
       (v\<lparr>currentBlockProcessedLength := currentBlockProcessedLength v + length (withoutIndent ?next)\<rparr>)"
    define v1' where "v1' = pushPage (enrichPageWithMetadata ?next (currentChapterTitle v')
         (currentChapterId v') [bid'] False False
         (Some (currentBlockProcessedLength v' + length (withoutIndent ?next))))
       (v'\<lparr>currentBlockProcessedLength := currentBlockProcessedLength v' + length (withoutIndent ?next)\<rparr>)"
    have step: "splitOnFreshPages m w bid r v = splitOnFreshPages m w bid (substringFrom r (length ?next)) v1"
      using True by (subst splitOnFreshPages.simps) (simp add: Let_def v1_def)
    have step': "splitOnFreshPages m w bid' r v' = splitOnFreshPages m w bid' (substringFrom r (length ?next)) v1'"
      using True by (subst splitOnFreshPages.simps) (simp add: Let_def v1'_def)
    have dec: "length (substringFrom r (length ?next)) < length r"
      using True by (simp add: substringFrom_def)
    have cur: "currentPageContent v1 = currentPageContent v1'"
      using less.prems by (simp add: v1_def v1'_def)
    have first: "sameProgress v v1 v' v1'"
      using cur by (simp add: sameProgress_def v1_def v1'_def pageContents_pushPage)
    show ?thesis unfolding step step'
      using first less.hyps [OF dec cur] by (auto intro: sameProgress_trans)
  qed
qed

lemma sameProgress_overflowWithFit:
  assumes "currentPageContent v = currentPageContent v'"
  shows "sameProgress v (overflowWithFit m w bid bc sep fp v) v' (overflowWithFit m w bid' bc sep fp v')"
proof -
  define v1 where "v1 = (pushPage (enrichPageWithMetadata (currentPageContent v @ sep @ fp) (currentChapterTitle v)
                       (currentChapterId v) (currentBlockIds v) False False
                       (Some (currentBlockProcessedLength v + length (withoutIndent fp))))
                    (v\<lparr>currentBlockProcessedLength := currentBlockProcessedLength v + length (withoutIndent fp)\<rparr>))
                 \<lparr>currentPageContent := [], currentBlockIds := [bid]\<rparr>"
  define v1' where "v1' = (pushPage (enrichPageWithMetadata (currentPageContent v' @ sep @ fp) (currentChapterTitle v')
                       (currentChapterId v') (currentBlockIds v') False False
                       (Some (currentBlockProcessedLength v' + length (withoutIndent fp))))
                    (v'\<lparr>currentBlockProcessedLength := currentBlockProcessedLength v' + length (withoutIndent fp)\<rparr>))
                 \<lparr>currentPageContent := [], currentBlockIds := [bid']\<rparr>"
  have cur: "currentPageContent v1 = currentPageContent v1'" by (simp add: v1_def v1'_def)
  have first: "sameProgress v v1 v' v1'"
    using assms by (simp add: sameProgress_def v1_def v1'_def pageContents_pushPage)
  have "sameProgress v1 (placeRemaining m w bid (substringFrom bc (length fp)) v1)
                     v1' (placeRemaining m w bid' (substringFrom bc (length fp)) v1')"
    using cur by (rule sameProgress_placeRemaining)
  with first show ?thesis
    unfolding overflowWithFit_def Let_def v1_def [symmetric] v1'_def [symmetric]
    by (rule sameProgress_trans)
qed

lemma sameProgress_overflowWithoutFit:
  assumes "currentPageContent v = currentPageContent v'"
  shows "sameProgress v (overflowWithoutFit m w bid bc v) v' (overflowWithoutFit m w bid' bc v')"
proof -
  define v1 where "v1 = (pushPage (enrichPageWithMetadata (currentPageContent v) (currentChapterTitle v)
                       (currentChapterId v) (currentBlockIds v) False False (Some (length (originalBlockText v bid))))
                     (v\<lparr>currentBlockProcessedLength := length (originalBlockText v bid)\<rparr>))
                 \<lparr>currentPageContent := [], currentBlockIds := [bid]\<rparr>"
  define v1' where "v1' = (pushPage (enrichPageWithMetadata (currentPageContent v') (currentChapterTitle v')
                       (currentChapterId v') (currentBlockIds v') False False (Some (length (originalBlockText v' bid'))))
                     (v'\<lparr>currentBlockProcessedLength := length (originalBlockText v' bid')\<rparr>))
                 \<lparr>currentPageContent := [], currentBlockIds := [bid']\<rparr>"
  have cur: "currentPageContent v1 = currentPageContent v1'" by (simp add: v1_def v1'_def)
  have first: "sameProgress v v1 v' v1'"
    using assms by (simp add: sameProgress_def v1_def v1'_def pageContents_pushPage)
  obtain rem v2 where s: "splitOnFreshPages m w bid bc v1 = (rem, v2)" by (cases "splitOnFreshPages m w bid bc v1")
  obtain rem' v2' where s': "splitOnFreshPages m w bid' bc v1' = (rem', v2')" by (cases "splitOnFreshPages m w bid' bc v1'")
  from sameProgress_splitOnFreshPages [OF cur, of m w bid bc bid'] s s'
  have sp: "sameProgress v1 v2 v1' v2'" and rem: "rem = rem'" by simp_all
  have second: "sameProgress v1 (if m bc \<le> w then v1\<lparr>currentPageContent := bc\<rparr>
                                 else if length rem > 0 then v2\<lparr>currentPageContent := rem\<rparr> else v2)
                             v1' (if m bc \<le> w then v1'\<lparr>currentPageContent := bc\<rparr>
                                 else if length rem > 0 then v2'\<lparr>currentPageContent := rem\<rparr> else v2')"
    using sp by (auto simp: sameProgress_def)
  have e: "overflowWithoutFit m w bid bc v = (if m bc \<le> w then v1\<lparr>currentPageContent := bc\<rparr>
                                 else if length rem > 0 then v2\<lparr>currentPageContent := rem\<rparr> else v2)"
    unfolding overflowWithoutFit_def Let_def v1_def [symmetric] by (simp add: s)
  have e': "overflowWithoutFit m w bid' bc v' = (if m bc \<le> w then v1'\<lparr>currentPageContent := bc\<rparr>
                                 else if length rem > 0 then v2'\<lparr>currentPageContent := rem\<rparr> else v2')"
    unfolding overflowWithoutFit_def Let_def v1'_def [symmetric] by (simp add: s' rem)
  show ?thesis unfolding e e' using first second by (rule sameProgress_trans)
qed

lemma sameProgress_chapterStart:
  assumes "currentPageContent v = currentPageContent v'"
  shows "sameProgress v (chapterStart block v) v' (chapterStart block v')"
  using assms
  by (auto simp: chapterStart_def Let_def sameProgress_def pageContents_pushChapterEndPage)

lemma pageContents_bookkeeping [simp]:
  "pageContents (rememberBlockText bid c v) = pageContents v"
  "pageContents (trackBlockId bid c v) = pageContents v"
  by (simp_all add: pageContents_def)

lemma sameProgress_placeBlock:
  assumes "currentPageContent v = currentPageContent v'"
  shows "sameProgress v (placeBlock m w bid bc sep tc wd v) v' (placeBlock m w bid bc sep tc wd v')"
proof (cases "wd > w \<and> currentPageContent v \<noteq> []")
  case True
  then show ?thesis
    unfolding placeBlock_def Let_def using assms
    by (simp add: sameProgress_overflowWithFit sameProgress_overflowWithoutFit)
next
  case False
  then show ?thesis
    unfolding placeBlock_def Let_def using assms
    by (auto simp: sameProgress_def)
qed

lemma sameProgress_textBlockStep:
  assumes "currentPageContent v = currentPageContent v'"
  shows "sameProgress v (textBlockStep m w block v) v' (textBlockStep m w block v')"
proof -
  define bid where "bid = orElse (idField2 (tb_id block)) 0"
  define u where "u = trackBlockId bid (tb_content block) (rememberBlockText bid (tb_content block) v)"
  define u' where "u' = trackBlockId bid (tb_content block) (rememberBlockText bid (tb_content block) v')"
  have cur: "currentPageContent u = currentPageContent u'" using assms by (simp add: u_def u'_def)
  have p: "pageContents u = pageContents v" "pageContents u' = pageContents v'"
    by (simp_all add: u_def u'_def)
  have "sameProgress u (placeBlock m w bid bc sep tc wd u) u' (placeBlock m w bid bc sep tc wd u')"
    for bc sep tc wd
    using cur by (rule sameProgress_placeBlock)
  then have "sameProgress v (placeBlock m w bid bc sep tc wd u) v' (placeBlock m w bid bc sep tc wd u')"
    for bc sep tc wd
    by (simp add: sameProgress_def p)
  then show ?thesis
    unfolding textBlockStep_def Let_def bid_def [symmetric] u_def [symmetric] u'_def [symmetric]
    by (simp add: assms)
qed

lemma sameProgress_paginationStep:
  "currentPageContent v = currentPageContent v'
   \<Longrightarrow> sameProgress v (paginationStep m w v block) v' (paginationStep m w v' block)"
  by (simp add: paginationStep_def sameProgress_chapterStart sameProgress_textBlockStep)

lemma sameProgress_foldl:
  "currentPageContent v = currentPageContent v'
   \<Longrightarrow> sameProgress v (foldl (paginationStep m w) v bs) v' (foldl (paginationStep m w) v' bs)"
proof (induction bs arbitrary: v v')
  case Nil
  then show ?case by (simp add: sameProgress_refl)
next
  case (Cons b bs)
  have first: "sameProgress v (paginationStep m w v b) v' (paginationStep m w v' b)"
    using Cons.prems by (rule sameProgress_paginationStep)
  from Cons.IH [OF sameProgress_current [OF first]] first show ?case
    by (auto intro: sameProgress_trans)
qed

subsection \<open>Chapters are paginated one after the other\<close>

lemma pageContents_saveLastPage: "pageContents (saveLastPage v) = closedContents v"
  by (simp add: saveLastPage_def closedContents_def pageContents_pushPage)

lemma paginateBlocks_contents:
  "map pd_content (paginateBlocks m w bs)
   = closedContents (foldl (paginationStep m w) initialVars bs)"
  using pageContents_saveLastPage [of "foldl (paginationStep m w) initialVars bs"]
  by (simp add: paginateBlocks_def pageContents_def)

lemma chapterStart_contents:
  "pageContents (chapterStart block v) = closedContents v"
  "currentPageContent (chapterStart block v) = []"
  by (simp_all add: chapterStart_def Let_def closedContents_def pageContents_pushChapterEndPage)

lemma closedContents_initialVars: "closedContents initialVars = []"
  by (simp add: closedContents_def pageContents_def initialVars_def)

lemma chapter_contents:
  "closedContents (foldl (paginationStep m w) v (chapterBlocks ch))
   = closedContents v @ closedContents (foldl (paginationStep m w) initialVars (chapterBlocks ch))"
proof -
  obtain marker tbs where cb: "chapterBlocks ch = marker # tbs" and mk: "tb_type marker = TChapter"
    by (simp add: chapterBlocks_def)
  define v1 where "v1 = chapterStart marker v"
  define i1 where "i1 = chapterStart marker initialVars"
  have cur: "currentPageContent v1 = currentPageContent i1"
    by (simp add: v1_def i1_def chapterStart_contents)
  from sameProgress_foldl [OF cur, of m w tbs]
  obtain new where new:
    "pageContents (foldl (paginationStep m w) v1 tbs) = pageContents v1 @ new"
    "pageContents (foldl (paginationStep m w) i1 tbs) = pageContents i1 @ new"
    "currentPageContent (foldl (paginationStep m w) v1 tbs)
     = currentPageContent (foldl (paginationStep m w) i1 tbs)"
    by (auto simp: sameProgress_def)
  have p: "pageContents v1 = closedContents v" "pageContents i1 = []"
    by (simp_all add: v1_def i1_def chapterStart_contents closedContents_initialVars)
  have "closedContents (foldl (paginationStep m w) v1 tbs)
        = closedContents v @ closedContents (foldl (paginationStep m w) i1 tbs)"
    using new p by (simp add: closedContents_def)
  then show ?thesis
    by (simp add: cb paginationStep_def mk v1_def i1_def)
qed

lemma chapters_contents:
  "closedContents (foldl (paginationStep m w) v (concat (map chapterBlocks chs)))
   = closedContents v
     @ concat (map (\<lambda>ch. closedContents (foldl (paginationStep m w) initialVars (chapterBlocks ch))) chs)"
proof (induction chs arbitrary: v)
  case Nil
  then show ?case by simp
next
  case (Cons ch chs)
  show ?case
    using Cons.IH [of "foldl (paginationStep m w) v (chapterBlocks ch)"] chapter_contents [of m w v ch]
    by simp
qed

lemma chapterPageContents_closed:
  "chapterPageContents m w ch
   = closedContents (foldl (paginationStep m w) initialVars (chapterBlocks ch))"
  by (simp add: chapterPageContents_def paginateBlocks_contents getStructuredBlocks_def)

lemma builtByHook_no_chapter_start: "builtByHook pg \<Longrightarrow> isChapterStart pg = None"
  by (simp add: builtByHook_def)

text \<open>
  C2, as the code has it. For every book, the contents of the pages produced by the
  pagination are the contents of the pages of its chapters, each chapter paginated on its
  own, one chapter after the other: every chapter starts on a fresh page and no page
  mixes content of two chapters. No page of the list has \<open>isChapterStart = true\<close>: the
  pages are pushed without that field.
\<close>

theorem chapters_on_fresh_pages:
  assumes "calculatePagination measureTextWidth actualMaxWidth book = Inr pages"
  shows "map pd_content pages
           = concat (map (chapterPageContents measureTextWidth actualMaxWidth) (chapters book))
         \<and> list_all (\<lambda>pg. isChapterStart pg = None) pages"
proof -
  have pages: "pages = paginateBlocks measureTextWidth actualMaxWidth (getStructuredBlocks book)"
    using assms by (simp add: calculatePagination_def Let_def split: if_splits)
  have "map pd_content pages
        = concat (map (chapterPageContents measureTextWidth actualMaxWidth) (chapters book))"
  proof -
    have "map (chapterPageContents measureTextWidth actualMaxWidth) (chapters book)
          = map (\<lambda>ch. closedContents (foldl (paginationStep measureTextWidth actualMaxWidth)
                                            initialVars (chapterBlocks ch))) (chapters book)"
      by (simp add: chapterPageContents_closed)
    moreover have "closedContents (foldl (paginationStep measureTextWidth actualMaxWidth) initialVars
                      (concat (map chapterBlocks (chapters book))))
          = concat (map (\<lambda>ch. closedContents (foldl (paginationStep measureTextWidth actualMaxWidth)
                                            initialVars (chapterBlocks ch))) (chapters book))"
      using chapters_contents [of measureTextWidth actualMaxWidth initialVars "chapters book"]
      by (simp add: closedContents_initialVars)
    ultimately show ?thesis
      unfolding pages paginateBlocks_contents getStructuredBlocks_def by (simp only:)
  qed
  moreover have "list_all builtByHook pages"
    unfolding pages by (rule builtByHook_paginateBlocks)
  then have "list_all (\<lambda>pg. isChapterStart pg = None) pages"
    by (simp add: list_all_iff builtByHook_no_chapter_start)
  ultimately show ?thesis by simp
qed

text \<open>
  C2 as stated fails: the first page of chapter 1 of a two-chapter book does not have
  \<open>isChapterStart = true\<close>.
\<close>

theorem chapters_on_fresh_pages_counterexample:
  "calculatePagination lengthWidth 100 bookTwoChapters = Inr pagesTwoChapters
   \<and> metadata (pagesTwoChapters ! 0)
       = Some \<lparr>md_chapterId = 1, md_blockIds = [1], startBlockId = Some 1, endBlockId = Some 1,
               endBlockCharacterOffset = Some 2, characterRange = Some (0, 2)\<rparr>
   \<and> isChapterStart (pagesTwoChapters ! 0) \<noteq> Some True"
  by (simp add: calculatePagination_bookTwoChapters) (simp add: pagesTwoChapters_def)

theorem chapters_on_fresh_pages_witness:
  "calculatePagination lengthWidth 100 bookTwoChapters = Inr pagesTwoChapters
   \<and> concat (map (chapterPageContents lengthWidth 100) (chapters bookTwoChapters))
       = [[12288, 97, 98], [12288, 99, 100]]
   \<and> map isChapterStart pagesTwoChapters = [None, None]"
proof -
  have "map pd_content pagesTwoChapters = [[12288, 97, 98], [12288, 99, 100]]"
    and "map isChapterStart pagesTwoChapters = [None, None]"
    by (simp_all add: pagesTwoChapters_def)
  with chapters_on_fresh_pages [OF calculatePagination_bookTwoChapters]
  show ?thesis by (simp add: calculatePagination_bookTwoChapters)
qed

subsection \<open>Where no text is lost\<close>

lemma kinsokuAdjust_prefix:
  assumes "r = take (length r) t"
  shows "kinsokuAdjust t r = take (length (kinsokuAdjust t r)) t"
proof -
  have "butlast r = take (length (butlast r)) t"
    using assms by (metis butlast_take length_butlast length_take min.cobounded2 take_butlast
        butlast_conv_take take_take min.absorb1 diff_le_self)
  with assms show ?thesis by (auto simp: kinsokuAdjust_def Let_def min_def)
qed

lemma findFittingText_prefix:
  "findFittingText m t w b s = take (length (findFittingText m t w b s)) t"
  unfolding findFittingText_def
  by (rule kinsokuAdjust_prefix) (rule binarySearchPrefix_is_prefix)

lemma findFittingText_split:
  "findFittingText m t w b s @ substringFrom t (length (findFittingText m t w b s)) = t"
  using findFittingText_prefix [of m t w b s]
  by (metis append_take_drop_id substringFrom_def)

lemma reproduces_append:
  assumes "reproduces s ts" and "sep = [] \<or> sep = [NEWLINE]"
  shows "reproduces (s @ sep @ t) (ts @ [t])"
  using assms(1)
proof (induction ts arbitrary: s)
  case Nil
  then show ?case using assms(2) by auto
next
  case (Cons u us)
  from Cons.prems consider
    (plain) "take (length u) s = u" "reproduces (drop (length u) s) us"
    | (newline) "take (Suc (length u)) s = NEWLINE # u" "reproduces (drop (Suc (length u)) s) us"
    by auto
  then show ?case
  proof cases
    case plain
    from plain(1) have "length (take (length u) s) = length u" by simp
    then have len: "length u \<le> length s" by simp
    from Cons.IH [OF plain(2)] plain(1) len show ?thesis by simp
  next
    case newline
    from newline(1) have "length (take (Suc (length u)) s) = Suc (length u)" by simp
    then have len: "Suc (length u) \<le> length s" by simp
    from Cons.IH [OF newline(2)] newline(1) len show ?thesis by simp
  qed
qed

lemma binarySearchLoop_fits:
  "binarySearchLoop m w t b s left right result = result
   \<or> m (b @ s @ binarySearchLoop m w t b s left right result) \<le> w"
proof (induction "nat (right - left + 1)" arbitrary: left right result rule: less_induct)
  case less
  show ?case
  proof (cases "left \<le> right")
    case False
    then show ?thesis by (subst (1 2) binarySearchLoop.simps) simp
  next
    case True
    define mid where "mid = (left + right) div 2"
    have mid: "left \<le> mid" "mid \<le> right" using True by (simp_all add: mid_def)
    let ?test = "substring t 0 (nat mid)"
    show ?thesis
    proof (cases "m (b @ s @ ?test) \<le> w")
      case fit: True
      have step: "binarySearchLoop m w t b s left right result
                  = binarySearchLoop m w t b s (mid + 1) right ?test"
        using True fit by (subst binarySearchLoop.simps) (simp add: Let_def mid_def)
      have "nat (right - (mid + 1) + 1) < nat (right - left + 1)" using mid True by simp
      from less.hyps [OF this, of ?test] fit show ?thesis unfolding step by auto
    next
      case nofit: False
      have step: "binarySearchLoop m w t b s left right result
                  = binarySearchLoop m w t b s left (mid - 1) result"
        using True nofit by (subst binarySearchLoop.simps) (simp add: Let_def mid_def)
      have "nat ((mid - 1) - left + 1) < nat (right - left + 1)" using mid True by simp
      from less.hyps [OF this, of result] show ?thesis unfolding step by simp
    qed
  qed
qed

lemma binarySearchLoop_empty:
  assumes "0 \<le> left" and "left \<le> right + 1" and "right \<le> int (length t)"
    and "right = int (length t) \<or> \<not> fitsPrefix m w t b s (nat (right + 1))"
    and "(left = 0 \<and> result = []) \<or> (0 < left \<and> length result = nat (left - 1))"
    and "binarySearchLoop m w t b s left right result = []"
  shows "\<not> fitsPrefix m w t b s 0 \<or> t = [] \<or> \<not> fitsPrefix m w t b s 1"
  using assms
proof (induction "nat (right - left + 1)" arbitrary: left right result rule: less_induct)
  case less
  show ?case
  proof (cases "left \<le> right")
    case False
    then have eq: "binarySearchLoop m w t b s left right result = result"
      by (subst binarySearchLoop.simps) simp
    from False less.prems(2) have lr: "left = right + 1" by simp
    from eq less.prems(6) have "result = []" by simp
    with less.prems(5) have "left = 0 \<or> left = 1" by auto
    then show ?thesis
    proof
      assume "left = 0"
      with lr less.prems(4) show ?thesis by auto
    next
      assume "left = 1"
      with lr less.prems(4) show ?thesis by auto
    qed
  next
    case True
    define mid where "mid = (left + right) div 2"
    have mid: "left \<le> mid" "mid \<le> right" using True by (simp_all add: mid_def)
    let ?test = "substring t 0 (nat mid)"
    have test: "?test = take (nat mid) t" by (simp add: substring_def)
    have len: "length ?test = nat mid" using mid less.prems(3) by (simp add: substring_def)
    show ?thesis
    proof (cases "m (b @ s @ ?test) \<le> w")
      case fit: True
      have step: "binarySearchLoop m w t b s left right result
                  = binarySearchLoop m w t b s (mid + 1) right ?test"
        using True fit by (subst binarySearchLoop.simps) (simp add: Let_def mid_def)
      have dec: "nat (right - (mid + 1) + 1) < nat (right - left + 1)" using mid True by simp
      show ?thesis
      proof (rule less.hyps [OF dec])
        show "0 \<le> mid + 1" using mid less.prems(1) by simp
        show "mid + 1 \<le> right + 1" using mid by simp
        show "right \<le> int (length t)" by (rule less.prems(3))
        show "right = int (length t) \<or> \<not> fitsPrefix m w t b s (nat (right + 1))"
          by (rule less.prems(4))
        show "mid + 1 = 0 \<and> ?test = [] \<or> 0 < mid + 1 \<and> length ?test = nat (mid + 1 - 1)"
          using mid less.prems(1) len by simp
        show "binarySearchLoop m w t b s (mid + 1) right ?test = []"
          using less.prems(6) step by simp
      qed
    next
      case nofit: False
      have step: "binarySearchLoop m w t b s left right result
                  = binarySearchLoop m w t b s left (mid - 1) result"
        using True nofit by (subst binarySearchLoop.simps) (simp add: Let_def mid_def)
      have dec: "nat ((mid - 1) - left + 1) < nat (right - left + 1)" using mid True by simp
      have nf: "\<not> fitsPrefix m w t b s (nat mid)" using nofit by (simp add: fitsPrefix_def test)
      show ?thesis
      proof (rule less.hyps [OF dec])
        show "0 \<le> left" by (rule less.prems(1))
        show "left \<le> mid - 1 + 1" using mid by simp
        show "mid - 1 \<le> int (length t)" using mid less.prems(3) by simp
        show "mid - 1 = int (length t) \<or> \<not> fitsPrefix m w t b s (nat (mid - 1 + 1))"
          using nf by simp
        show "left = 0 \<and> result = [] \<or> 0 < left \<and> length result = nat (left - 1)"
          by (rule less.prems(5))
        show "binarySearchLoop m w t b s left (mid - 1) result = []"
          using less.prems(6) step by simp
      qed
    qed
  qed
qed

lemma kinsokuAdjust_empty: "kinsokuAdjust t r = [] \<Longrightarrow> r = []"
  by (cases r rule: rev_cases) (auto simp: kinsokuAdjust_def Let_def split: if_splits)

text \<open>
  When the empty text and every single character are within the page width, a non-empty
  text always has a non-empty fitting prefix, whatever the widths of longer texts are.
\<close>

lemma single_characters_progress:
  assumes "m [] \<le> w" and "\<forall>c. m [c] \<le> w"
  shows "everyRemainderProgresses m w"
  unfolding everyRemainderProgresses_def
proof (intro allI impI)
  fix t :: jsstring
  assume t: "t \<noteq> [] \<and> \<not> m t \<le> w"
  show "findFittingText m t w [] [] \<noteq> []"
  proof
    assume "findFittingText m t w [] [] = []"
    then have "binarySearchPrefix m t w [] [] = []"
      unfolding findFittingText_def by (rule kinsokuAdjust_empty)
    then have "binarySearchLoop m w t [] [] 0 (int (length t)) [] = []"
      by (simp add: binarySearchPrefix_def)
    from binarySearchLoop_empty [OF _ _ _ _ _ this]
    have "\<not> fitsPrefix m w t [] [] 0 \<or> t = [] \<or> \<not> fitsPrefix m w t [] [] 1" by simp
    moreover have "fitsPrefix m w t [] [] 0" using assms(1) by (simp add: fitsPrefix_def)
    moreover have "fitsPrefix m w t [] [] 1"
      using assms(2) t by (cases t) (simp_all add: fitsPrefix_def)
    ultimately show False using t by simp
  qed
qed

lemma regular_single_characters:
  assumes "regularSurface m" and "r \<noteq> []" and "m (b @ s @ r) \<le> w"
  shows "m [] \<le> w \<and> (\<forall>c. m [c] \<le> w)"
proof -
  have "b @ s @ r \<noteq> []" using assms(2) by simp
  with assms(1) have "m [] \<le> m (b @ s @ r)" "\<And>c. m [c] \<le> m (b @ s @ r)"
    unfolding regularSurface_def by blast+
  with assms(3) show ?thesis by (meson order_trans)
qed

lemma fitting_portion_progress:
  assumes "regularSurface m" and "findFittingText m bc w cur sep \<noteq> []"
  shows "everyRemainderProgresses m w"
proof -
  let ?r = "binarySearchPrefix m bc w cur sep"
  have ne: "?r \<noteq> []" using assms(2) by (auto simp: findFittingText_def kinsokuAdjust_def)
  then have "m (cur @ sep @ ?r) \<le> w"
    using binarySearchLoop_fits [of m w bc cur sep 0 "int (length bc)" "[]"]
    by (simp add: binarySearchPrefix_def)
  from regular_single_characters [OF assms(1) ne this]
  show ?thesis by (simp add: single_characters_progress)
qed

lemma allText_placeRemaining:
  assumes "everyRemainderProgresses m w"
  shows "currentPageContent v = []
         \<Longrightarrow> allText (placeRemaining m w bid r v) = allText v @ r"
proof (induction "length r" arbitrary: r v rule: less_induct)
  case less
  let ?next = "findFittingText m r w [] []"
  show ?case
  proof (cases "r = []")
    case True
    then show ?thesis by (subst placeRemaining.simps) simp
  next
    case nonempty: False
    show ?thesis
    proof (cases "m r \<le> w")
      case True
      then show ?thesis using nonempty less.prems
        by (subst placeRemaining.simps) (simp add: allText_def)
    next
      case False
      with assms nonempty have nx: "?next \<noteq> []"
        by (simp add: everyRemainderProgresses_def)
      define v1 where "v1 = pushPage (enrichPageWithMetadata ?next (currentChapterTitle v)
           (currentChapterId v) [bid] False False
           (Some (currentBlockProcessedLength v + length (withoutIndent ?next))))
         (v\<lparr>currentBlockProcessedLength := currentBlockProcessedLength v + length (withoutIndent ?next)\<rparr>)"
      have step: "placeRemaining m w bid r v = placeRemaining m w bid (substringFrom r (length ?next)) v1"
        using nonempty False nx by (subst placeRemaining.simps) (simp add: Let_def v1_def)
      have dec: "length (substringFrom r (length ?next)) < length r"
        using nonempty nx by (simp add: substringFrom_def)
      have cur: "currentPageContent v1 = []" using less.prems by (simp add: v1_def)
      have p1: "allText v1 = allText v @ ?next"
        using less.prems by (simp add: v1_def allText_def pageContents_pushPage)
      from less.hyps [OF dec cur] p1 findFittingText_split [of m r w "[]" "[]"]
      show ?thesis unfolding step by simp
    qed
  qed
qed

lemma allText_splitOnFreshPages:
  "currentPageContent v = []
   \<Longrightarrow> allText (snd (splitOnFreshPages m w bid r v)) @ fst (splitOnFreshPages m w bid r v)
       = allText v @ r
     \<and> currentPageContent (snd (splitOnFreshPages m w bid r v)) = []"
proof (induction "length r" arbitrary: r v rule: less_induct)
  case less
  let ?next = "findFittingText m r w [] []"
  show ?case
  proof (cases "length r > 0 \<and> length ?next > 0")
    case False
    then show ?thesis using less.prems
      by (subst (1 2 3) splitOnFreshPages.simps) (auto simp: Let_def)
  next
    case True
    define v1 where "v1 = pushPage (enrichPageWithMetadata ?next (currentChapterTitle v)
         (currentChapterId v) [bid] False False
         (Some (currentBlockProcessedLength v + length (withoutIndent ?next))))
       (v\<lparr>currentBlockProcessedLength := currentBlockProcessedLength v + length (withoutIndent ?next)\<rparr>)"
    have step: "splitOnFreshPages m w bid r v = splitOnFreshPages m w bid (substringFrom r (length ?next)) v1"
      using True by (subst splitOnFreshPages.simps) (simp add: Let_def v1_def)
    have dec: "length (substringFrom r (length ?next)) < length r"
      using True by (simp add: substringFrom_def)
    have cur: "currentPageContent v1 = []" using less.prems by (simp add: v1_def)
    have p1: "allText v1 = allText v @ ?next"
      using less.prems by (simp add: v1_def allText_def pageContents_pushPage)
    from less.hyps [OF dec cur] p1 findFittingText_split [of m r w "[]" "[]"]
    show ?thesis unfolding step by simp
  qed
qed

lemma allText_overflowWithFit:
  assumes "everyRemainderProgresses m w"
    and "fp @ substringFrom bc (length fp) = bc"
  shows "allText (overflowWithFit m w bid bc sep fp v) = allText v @ sep @ bc"
proof -
  define v1 where "v1 = (pushPage (enrichPageWithMetadata (currentPageContent v @ sep @ fp) (currentChapterTitle v)
                       (currentChapterId v) (currentBlockIds v) False False
                       (Some (currentBlockProcessedLength v + length (withoutIndent fp))))
                    (v\<lparr>currentBlockProcessedLength := currentBlockProcessedLength v + length (withoutIndent fp)\<rparr>))
                 \<lparr>currentPageContent := [], currentBlockIds := [bid]\<rparr>"
  have cur: "currentPageContent v1 = []" by (simp add: v1_def)
  have p1: "allText v1 = allText v @ sep @ fp"
    by (simp add: v1_def allText_def pageContents_pushPage)
  from allText_placeRemaining [OF assms(1) cur, of bid "substringFrom bc (length fp)"] p1 assms(2)
  show ?thesis
    unfolding overflowWithFit_def Let_def v1_def [symmetric] by simp
qed

lemma allText_overflowWithoutFit:
  "allText (overflowWithoutFit m w bid bc v) = allText v @ bc"
proof -
  define v1 where "v1 = (pushPage (enrichPageWithMetadata (currentPageContent v) (currentChapterTitle v)
                       (currentChapterId v) (currentBlockIds v) False False (Some (length (originalBlockText v bid))))
                     (v\<lparr>currentBlockProcessedLength := length (originalBlockText v bid)\<rparr>))
                 \<lparr>currentPageContent := [], currentBlockIds := [bid]\<rparr>"
  have cur: "currentPageContent v1 = []" by (simp add: v1_def)
  have p1: "allText v1 = allText v"
    by (simp add: v1_def allText_def pageContents_pushPage)
  obtain rem v2 where s: "splitOnFreshPages m w bid bc v1 = (rem, v2)"
    by (cases "splitOnFreshPages m w bid bc v1")
  from allText_splitOnFreshPages [OF cur, of m w bid bc] s
  have sp: "allText v2 @ rem = allText v1 @ bc"
    and c2: "currentPageContent v2 = []" by simp_all
  have r2: "allText (v2\<lparr>currentPageContent := rem\<rparr>) = allText v2 @ rem"
    using c2 by (simp add: allText_def)
  have r0: "rem = [] \<Longrightarrow> allText v2 = allText v1 @ bc"
    using sp by simp
  have r1: "allText (v1\<lparr>currentPageContent := bc\<rparr>) = allText v1 @ bc"
    using cur by (simp add: allText_def)
  show ?thesis
    unfolding overflowWithoutFit_def Let_def v1_def [symmetric]
    using s sp r0 r1 r2 p1 by (auto split: prod.splits)
qed

lemma allText_placeBlock:
  assumes "regularSurface m" and "sep = [] \<or> sep = [NEWLINE]"
  shows "\<exists>s. (s = [] \<or> s = [NEWLINE])
             \<and> allText (placeBlock m w bid bc sep (currentPageContent v @ sep @ bc) wd v)
                 = allText v @ s @ bc"
proof -
  let ?fp = "findFittingText m bc w (currentPageContent v) sep"
  have split: "?fp @ substringFrom bc (length ?fp) = bc" by (rule findFittingText_split)
  have fit: "allText (overflowWithFit m w bid bc sep ?fp v) = allText v @ sep @ bc" if "?fp \<noteq> []"
    using allText_overflowWithFit [OF fitting_portion_progress [OF assms(1) that] split] .
  have nofit: "allText (overflowWithoutFit m w bid bc v) = allText v @ [] @ bc"
    by (simp add: allText_overflowWithoutFit)
  have keep: "allText (v\<lparr>currentPageContent := currentPageContent v @ sep @ bc,
                          lastBlockCharacterOffset := length (originalBlockText v bid)\<rparr>)
              = allText v @ sep @ bc"
    by (simp add: allText_def)
  show ?thesis
  proof (cases "wd > w \<and> currentPageContent v \<noteq> []")
    case False
    then have "placeBlock m w bid bc sep (currentPageContent v @ sep @ bc) wd v
               = v\<lparr>currentPageContent := currentPageContent v @ sep @ bc,
                    lastBlockCharacterOffset := length (originalBlockText v bid)\<rparr>"
      by (auto simp: placeBlock_def)
    with keep assms(2) show ?thesis by metis
  next
    case True
    show ?thesis
    proof (cases "?fp = []")
      case True
      with \<open>wd > w \<and> currentPageContent v \<noteq> []\<close>
      have "placeBlock m w bid bc sep (currentPageContent v @ sep @ bc) wd v
            = overflowWithoutFit m w bid bc v"
        by (simp add: placeBlock_def)
      with nofit show ?thesis by metis
    next
      case False
      with \<open>wd > w \<and> currentPageContent v \<noteq> []\<close>
      have "placeBlock m w bid bc sep (currentPageContent v @ sep @ bc) wd v
            = overflowWithFit m w bid bc sep ?fp v"
        by (simp add: placeBlock_def Let_def)
      with fit [OF False] assms(2) show ?thesis by metis
    qed
  qed
qed

lemma allText_bookkeeping [simp]:
  "allText (rememberBlockText bid c v) = allText v"
  "allText (trackBlockId bid c v) = allText v"
  by (simp_all add: allText_def)

lemma allText_textBlockStep:
  assumes "regularSurface m"
  shows "\<exists>s. (s = [] \<or> s = [NEWLINE])
             \<and> allText (textBlockStep m w block v)
                 = allText v @ s @ blockContentOf block"
proof -
  define bid where "bid = orElse (idField2 (tb_id block)) 0"
  define u where "u = trackBlockId bid (tb_content block) (rememberBlockText bid (tb_content block) v)"
  define bc where "bc = blockContentOf block"
  define sep where "sep = (if currentPageContent v \<noteq> [] then [NEWLINE] else [])"
  have cu: "currentPageContent u = currentPageContent v" by (simp add: u_def)
  have au: "allText u = allText v" by (simp add: u_def)
  have sp: "sep = [] \<or> sep = [NEWLINE]" by (simp add: sep_def)
  have step: "textBlockStep m w block v
              = placeBlock m w bid bc sep (currentPageContent u @ sep @ bc)
                  (m (currentPageContent v @ sep @ bc)) u"
    unfolding textBlockStep_def Let_def bid_def [symmetric] u_def [symmetric]
      blockContentOf_def [symmetric] bc_def [symmetric]
    by (simp add: cu sep_def)
  from allText_placeBlock [OF assms sp, of w bid bc u "m (currentPageContent v @ sep @ bc)"]
  show ?thesis unfolding step au bc_def [symmetric] .
qed

lemma allText_chapterStart: "allText (chapterStart block v) = allText v"
  by (simp add: chapterStart_def Let_def allText_def pageContents_pushChapterEndPage)

lemma reproduces_foldl:
  assumes "regularSurface m"
  shows "reproduces (allText v) ts
         \<Longrightarrow> reproduces (allText (foldl (paginationStep m w) v bs))
               (ts @ map blockContentOf (filter (\<lambda>b. tb_type b \<noteq> TChapter) bs))"
proof (induction bs arbitrary: v ts)
  case Nil
  then show ?case by simp
next
  case (Cons b bs)
  show ?case
  proof (cases "tb_type b = TChapter")
    case True
    with Cons.IH [of "chapterStart b v" ts] Cons.prems show ?thesis
      by (simp add: paginationStep_def allText_chapterStart)
  next
    case False
    from allText_textBlockStep [OF assms, of w b v]
    obtain s where s: "s = [] \<or> s = [NEWLINE]"
      and a: "allText (textBlockStep m w b v) = allText v @ s @ blockContentOf b"
      by blast
    have "reproduces (allText (textBlockStep m w b v)) (ts @ [blockContentOf b])"
      unfolding a by (rule reproduces_append [OF Cons.prems s])
    from Cons.IH [OF this] False show ?thesis by (simp add: paginationStep_def)
  qed
qed

lemma structured_linearized:
  "map blockContentOf (filter (\<lambda>b. tb_type b \<noteq> TChapter) (getStructuredBlocks book))
   = linearized book"
proof -
  have "map blockContentOf (filter (\<lambda>b. tb_type b \<noteq> TChapter) (chapterBlocks ch))
        = map indentedText (blocks ch)" for ch
    by (simp add: chapterBlocks_def textBlockType_def filter_map comp_def blockContentOf_def
          indentedText_def split: BlockType.splits)
  then have "map blockContentOf (filter (\<lambda>b. tb_type b \<noteq> TChapter) (concat (map chapterBlocks chs)))
        = map indentedText (concat (map blocks chs))" for chs
    by (induction chs) simp_all
  then show ?thesis by (simp add: getStructuredBlocks_def linearized_def)
qed

lemma hook_coverage:
  assumes "regularSurface m" and "calculatePagination m w book = Inr pages"
  shows "reproduces (concat (map pd_content pages)) (linearized book)"
proof -
  define v where "v = foldl (paginationStep m w) initialVars (getStructuredBlocks book)"
  have pages: "pages = paginateBlocks m w (getStructuredBlocks book)"
    using assms(2) by (simp add: calculatePagination_def Let_def split: if_splits)
  have "map pd_content pages = closedContents v"
    unfolding pages v_def by (rule paginateBlocks_contents)
  then have "concat (map pd_content pages) = allText v"
    by (simp add: closedContents_def allText_def)
  moreover have "reproduces (allText initialVars) []"
    by (simp add: allText_def pageContents_def initialVars_def)
  from reproduces_foldl [OF assms(1) this, of w "getStructuredBlocks book"]
  have "reproduces (allText v) (linearized book)"
    by (simp add: v_def structured_linearized)
  ultimately show ?thesis by simp
qed

lemma calculatePagination_error:
  "calculatePagination m w book = Inl NoBookData \<longleftrightarrow> chapters book = []"
  by (cases "chapters book")
     (auto simp: calculatePagination_def Let_def getStructuredBlocks_def chapterBlocks_def
           split: if_splits)


subsection \<open>The same for the component\<close>

lemma paginatorFindFittingText_search:
  "paginatorFindFittingText m t w b s = binarySearchPrefix m t w b s"
  by (simp add: paginatorFindFittingText_def binarySearchPrefix_def)

lemma paginatorFindFittingText_split:
  "paginatorFindFittingText m t w b s @ substringFrom t (length (paginatorFindFittingText m t w b s)) = t"
  unfolding paginatorFindFittingText_search
  using binarySearchPrefix_is_prefix [of m t w b s]
  by (metis append_take_drop_id substringFrom_def)

lemma paginator_progress:
  assumes "everyRemainderProgresses m w" and "t \<noteq> []" and "\<not> m t \<le> w"
  shows "paginatorFindFittingText m t w [] [] \<noteq> []"
  using assms unfolding everyRemainderProgresses_def paginatorFindFittingText_search
  by (auto simp: findFittingText_def kinsokuAdjust_def)

lemma paginator_portion_progress:
  assumes "regularSurface m" and "paginatorFindFittingText m bc w cur sep \<noteq> []"
  shows "everyRemainderProgresses m w"
proof -
  let ?r = "paginatorFindFittingText m bc w cur sep"
  have "m (cur @ sep @ ?r) \<le> w"
    using binarySearchLoop_fits [of m w bc cur sep 0 "int (length bc)" "[]"] assms(2)
    by (simp add: paginatorFindFittingText_def)
  from regular_single_characters [OF assms(1) assms(2) this]
  show ?thesis by (simp add: single_characters_progress)
qed

lemma paginatorContents_push [simp]:
  "paginatorContents (paginatorPush c v) = paginatorContents v @ [c]"
  "pv_currentPageContent (paginatorPush c v) = pv_currentPageContent v"
  by (simp_all add: paginatorContents_def paginatorPush_def)

lemma paginatorContents_updates [simp]:
  "paginatorContents (v\<lparr>pv_currentPageContent := c\<rparr>) = paginatorContents v"
  "paginatorContents (v\<lparr>pv_currentChapterTitle := ti\<rparr>) = paginatorContents v"
  by (simp_all add: paginatorContents_def)

lemma paginatorAllText_placeRemaining:
  assumes "everyRemainderProgresses m w"
  shows "pv_currentPageContent v = []
         \<Longrightarrow> paginatorAllText (paginatorPlaceRemaining m w r v) = paginatorAllText v @ r"
proof (induction "length r" arbitrary: r v rule: less_induct)
  case less
  let ?next = "paginatorFindFittingText m r w [] []"
  show ?case
  proof (cases "r = []")
    case True
    then show ?thesis by (subst paginatorPlaceRemaining.simps) simp
  next
    case nonempty: False
    show ?thesis
    proof (cases "m r \<le> w")
      case True
      then show ?thesis using nonempty less.prems
        by (subst paginatorPlaceRemaining.simps) (simp add: paginatorAllText_def)
    next
      case False
      have nx: "?next \<noteq> []" by (rule paginator_progress [OF assms nonempty False])
      have step: "paginatorPlaceRemaining m w r v
                  = paginatorPlaceRemaining m w (substringFrom r (length ?next)) (paginatorPush ?next v)"
        using nonempty False nx by (subst paginatorPlaceRemaining.simps) (simp add: Let_def)
      have dec: "length (substringFrom r (length ?next)) < length r"
        using nonempty nx by (simp add: substringFrom_def)
      have cur: "pv_currentPageContent (paginatorPush ?next v) = []" using less.prems by simp
      have p1: "paginatorAllText (paginatorPush ?next v) = paginatorAllText v @ ?next"
        using less.prems by (simp add: paginatorAllText_def)
      from less.hyps [OF dec cur] p1 paginatorFindFittingText_split [of m r w "[]" "[]"]
      show ?thesis unfolding step by simp
    qed
  qed
qed

lemma paginatorAllText_splitOnFreshPages:
  "pv_currentPageContent v = []
   \<Longrightarrow> paginatorAllText (snd (paginatorSplitOnFreshPages m w r v))
         @ fst (paginatorSplitOnFreshPages m w r v)
       = paginatorAllText v @ r
     \<and> pv_currentPageContent (snd (paginatorSplitOnFreshPages m w r v)) = []"
proof (induction "length r" arbitrary: r v rule: less_induct)
  case less
  let ?next = "paginatorFindFittingText m r w [] []"
  show ?case
  proof (cases "length r > 0 \<and> length ?next > 0")
    case False
    then show ?thesis using less.prems
      by (subst (1 2 3) paginatorSplitOnFreshPages.simps) (auto simp: Let_def)
  next
    case True
    have step: "paginatorSplitOnFreshPages m w r v
                = paginatorSplitOnFreshPages m w (substringFrom r (length ?next)) (paginatorPush ?next v)"
      using True by (subst paginatorSplitOnFreshPages.simps) (simp add: Let_def)
    have dec: "length (substringFrom r (length ?next)) < length r"
      using True by (simp add: substringFrom_def)
    have cur: "pv_currentPageContent (paginatorPush ?next v) = []" using less.prems by simp
    have p1: "paginatorAllText (paginatorPush ?next v) = paginatorAllText v @ ?next"
      using less.prems by (simp add: paginatorAllText_def)
    from less.hyps [OF dec cur] p1 paginatorFindFittingText_split [of m r w "[]" "[]"]
    show ?thesis unfolding step by simp
  qed
qed

lemma paginatorAllText_overflowWithFit:
  assumes "everyRemainderProgresses m w"
    and "fp @ substringFrom bc (length fp) = bc"
  shows "paginatorAllText (paginatorOverflowWithFit m w bc sep fp v) = paginatorAllText v @ sep @ bc"
proof -
  define v1 where "v1 = (paginatorPush (pv_currentPageContent v @ sep @ fp) v)\<lparr>pv_currentPageContent := []\<rparr>"
  have cur: "pv_currentPageContent v1 = []" by (simp add: v1_def)
  have p1: "paginatorAllText v1 = paginatorAllText v @ sep @ fp"
    by (simp add: v1_def paginatorAllText_def)
  from paginatorAllText_placeRemaining [OF assms(1) cur, of "substringFrom bc (length fp)"] p1 assms(2)
  show ?thesis
    unfolding paginatorOverflowWithFit_def Let_def v1_def [symmetric] by simp
qed

lemma paginatorAllText_overflowWithoutFit:
  "paginatorAllText (paginatorOverflowWithoutFit m w bc v) = paginatorAllText v @ bc"
proof -
  define v1 where "v1 = (paginatorPush (pv_currentPageContent v) v)\<lparr>pv_currentPageContent := []\<rparr>"
  have cur: "pv_currentPageContent v1 = []" by (simp add: v1_def)
  have p1: "paginatorAllText v1 = paginatorAllText v"
    by (simp add: v1_def paginatorAllText_def)
  obtain rem v2 where s: "paginatorSplitOnFreshPages m w bc v1 = (rem, v2)"
    by (cases "paginatorSplitOnFreshPages m w bc v1")
  from paginatorAllText_splitOnFreshPages [OF cur, of m w bc] s
  have sp: "paginatorAllText v2 @ rem = paginatorAllText v1 @ bc"
    and c2: "pv_currentPageContent v2 = []" by simp_all
  have r2: "paginatorAllText (v2\<lparr>pv_currentPageContent := rem\<rparr>) = paginatorAllText v2 @ rem"
    using c2 by (simp add: paginatorAllText_def)
  have r0: "rem = [] \<Longrightarrow> paginatorAllText v2 = paginatorAllText v1 @ bc"
    using sp by simp
  have r1: "paginatorAllText (v1\<lparr>pv_currentPageContent := bc\<rparr>) = paginatorAllText v1 @ bc"
    using cur by (simp add: paginatorAllText_def)
  show ?thesis
    unfolding paginatorOverflowWithoutFit_def Let_def v1_def [symmetric]
    using s sp r0 r1 r2 p1 by (auto split: prod.splits)
qed

lemma paginatorAllText_textBlockStep:
  assumes "regularSurface m"
  shows "\<exists>s. (s = [] \<or> s = [NEWLINE])
             \<and> paginatorAllText (paginatorTextBlockStep m w block v)
                 = paginatorAllText v @ s @ blockContentOf block"
proof -
  define bc where "bc = blockContentOf block"
  define sep where "sep = (if pv_currentPageContent v \<noteq> [] then [NEWLINE] else [])"
  let ?fp = "paginatorFindFittingText m bc w (pv_currentPageContent v) sep"
  have sp: "sep = [] \<or> sep = [NEWLINE]" by (simp add: sep_def)
  have split: "?fp @ substringFrom bc (length ?fp) = bc" by (rule paginatorFindFittingText_split)
  have fit: "paginatorAllText (paginatorOverflowWithFit m w bc sep ?fp v) = paginatorAllText v @ sep @ bc"
    if "?fp \<noteq> []"
    using paginatorAllText_overflowWithFit [OF paginator_portion_progress [OF assms that] split] .
  have nofit: "paginatorAllText (paginatorOverflowWithoutFit m w bc v) = paginatorAllText v @ [] @ bc"
    by (simp add: paginatorAllText_overflowWithoutFit)
  have keep: "paginatorAllText (v\<lparr>pv_currentPageContent := pv_currentPageContent v @ sep @ bc\<rparr>)
              = paginatorAllText v @ sep @ bc"
    by (simp add: paginatorAllText_def)
  have step: "paginatorTextBlockStep m w block v
              = (if m (pv_currentPageContent v @ sep @ bc) > w \<and> pv_currentPageContent v \<noteq> [] then
                   if length ?fp > 0 then paginatorOverflowWithFit m w bc sep ?fp v
                   else paginatorOverflowWithoutFit m w bc v
                 else v\<lparr>pv_currentPageContent := pv_currentPageContent v @ sep @ bc\<rparr>)"
    unfolding paginatorTextBlockStep_def Let_def bc_def blockContentOf_def sep_def by (rule refl)
  show ?thesis
  proof (cases "m (pv_currentPageContent v @ sep @ bc) > w \<and> pv_currentPageContent v \<noteq> []")
    case False
    then have "paginatorTextBlockStep m w block v
               = v\<lparr>pv_currentPageContent := pv_currentPageContent v @ sep @ bc\<rparr>"
      unfolding step by auto
    with keep sp show ?thesis unfolding bc_def [symmetric] by metis
  next
    case True
    show ?thesis
    proof (cases "?fp = []")
      case True
      with \<open>m (pv_currentPageContent v @ sep @ bc) > w \<and> pv_currentPageContent v \<noteq> []\<close>
      have "paginatorTextBlockStep m w block v = paginatorOverflowWithoutFit m w bc v"
        unfolding step by simp
      with nofit show ?thesis unfolding bc_def [symmetric] by metis
    next
      case False
      with \<open>m (pv_currentPageContent v @ sep @ bc) > w \<and> pv_currentPageContent v \<noteq> []\<close>
      have "paginatorTextBlockStep m w block v = paginatorOverflowWithFit m w bc sep ?fp v"
        unfolding step by simp
      with fit [OF False] sp show ?thesis unfolding bc_def [symmetric] by metis
    qed
  qed
qed

lemma paginatorAllText_chapterStart:
  "paginatorAllText (paginatorChapterStart block v) = paginatorAllText v"
  by (simp add: paginatorChapterStart_def Let_def paginatorAllText_def)

lemma paginator_reproduces_foldl:
  assumes "regularSurface m"
  shows "reproduces (paginatorAllText v) ts
         \<Longrightarrow> reproduces (paginatorAllText (foldl (paginatorStep m w) v bs))
               (ts @ map blockContentOf (filter (\<lambda>b. tb_type b \<noteq> TChapter) bs))"
proof (induction bs arbitrary: v ts)
  case Nil
  then show ?case by simp
next
  case (Cons b bs)
  show ?case
  proof (cases "tb_type b = TChapter")
    case True
    with Cons.IH [of "paginatorChapterStart b v" ts] Cons.prems show ?thesis
      by (simp add: paginatorStep_def paginatorAllText_chapterStart)
  next
    case False
    from paginatorAllText_textBlockStep [OF assms, of w b v]
    obtain s where s: "s = [] \<or> s = [NEWLINE]"
      and a: "paginatorAllText (paginatorTextBlockStep m w b v) = paginatorAllText v @ s @ blockContentOf b"
      by blast
    have "reproduces (paginatorAllText (paginatorTextBlockStep m w b v)) (ts @ [blockContentOf b])"
      unfolding a by (rule reproduces_append [OF Cons.prems s])
    from Cons.IH [OF this] False show ?thesis by (simp add: paginatorStep_def)
  qed
qed

lemma paginator_coverage:
  assumes "regularSurface m" and "paginatorCalculatePagination m w book = Inr pages"
  shows "reproduces (concat (map pp_content pages)) (linearized book)"
proof -
  define v where "v = foldl (paginatorStep m w) paginatorInitialVars (getStructuredBlocks book)"
  have pages: "pages = pv_calculatedPages (paginatorSaveLastPage v)"
    using assms(2) by (simp add: paginatorCalculatePagination_def Let_def v_def split: if_splits)
  have "concat (map pp_content pages) = paginatorAllText v"
    unfolding pages
    by (simp add: paginatorSaveLastPage_def paginatorAllText_def paginatorContents_def paginatorPush_def)
  moreover have "reproduces (paginatorAllText paginatorInitialVars) []"
    by (simp add: paginatorAllText_def paginatorContents_def paginatorInitialVars_def)
  from paginator_reproduces_foldl [OF assms(1) this, of w "getStructuredBlocks book"]
  have "reproduces (paginatorAllText v) (linearized book)"
    by (simp add: v_def structured_linearized)
  ultimately show ?thesis by simp
qed

lemma paginatorCalculatePagination_error:
  "paginatorCalculatePagination m w book = Inl NoBookData \<longleftrightarrow> chapters book = []"
  by (cases "chapters book")
     (auto simp: paginatorCalculatePagination_def Let_def getStructuredBlocks_def chapterBlocks_def
           split: if_splits)



subsection \<open>The coverage of the book\<close>

lemma columnsFrom_positive: "0 < k \<or> s \<noteq> [] \<Longrightarrow> 0 < columnsFrom h k s"
  by (induction s arbitrary: k) auto

lemma regularSurface_columns: "0 < h \<Longrightarrow> regularSurface (columns h)"
  using columnsFrom_positive [of 0 _ h]
  by (auto simp: regularSurface_def columns_def Suc_le_eq)


lemma structured_bookSplit:
  "getStructuredBlocks bookSplit =
     [\<lparr>tb_id = ChapterMarkerId 1, tb_type = TChapter, tb_content = [], tb_chapterTitle = Some [84]\<rparr>,
      \<lparr>tb_id = BlockMarkerId 1 1, tb_type = TConversation, tb_content = [97], tb_chapterTitle = Some [84]\<rparr>,
      \<lparr>tb_id = BlockMarkerId 1 2, tb_type = TConversation, tb_content = [98, 99, 100, 101, 102],
        tb_chapterTitle = Some [84]\<rparr>]"
  by (simp add: getStructuredBlocks_def bookSplit_def chapterBlocks_def textBlockType_def)

lemma search_bcdef:
  "binarySearchLoop (columns 2) 2 [98, 99, 100, 101, 102] [97] [10] 0 5 [] = [98, 99]"
  by (simp add: binarySearchLoop.simps Let_def substring_def columns_def NEWLINE_def)

lemma fit_bcdef: "findFittingText (columns 2) [98, 99, 100, 101, 102] 2 [97] [10] = [98, 99]"
  by (simp add: findFittingText_def binarySearchPrefix_def search_bcdef kinsokuAdjust_def
        kinsokuFollower_def)

lemma calculatePagination_bookSplit:
  "calculatePagination (columns 2) 2 bookSplit =
     Inr [\<lparr>pd_content = [97, 10, 98, 99], chapterTitle = Some [84],
           isChapterStart = None, isChapterEnd = None,
           metadata = Some \<lparr>md_chapterId = 1, md_blockIds = [1, 2], startBlockId = Some 1,
                            endBlockId = Some 2, endBlockCharacterOffset = Some 2,
                            characterRange = Some (0, 3)\<rparr>\<rparr>,
          \<lparr>pd_content = [100, 101, 102], chapterTitle = Some [84],
           isChapterStart = None, isChapterEnd = None,
           metadata = Some \<lparr>md_chapterId = 1, md_blockIds = [2], startBlockId = Some 2,
                            endBlockId = Some 2, endBlockCharacterOffset = Some 1,
                            characterRange = Some (0, 2)\<rparr>\<rparr>]"
  by (simp add: calculatePagination_def structured_bookSplit paginateBlocks_def
        paginationStep_def chapterStart_def textBlockStep_def placeBlock_def rememberBlockText_def
        trackBlockId_def initialVars_def saveLastPage_def overflowWithFit_def
        placeRemaining.simps fit_bcdef substringFrom_def withoutIndent_def
        pushPage_def pushChapterEndPage_def enrichPageWithMetadata_def orElse_def
        originalBlockText_def headOption_def lastOption_def IDEOGRAPHIC_SPACE_def NEWLINE_def
        columns_def Let_def)

lemma paginatorCalculatePagination_bookSplit:
  "paginatorCalculatePagination (columns 2) 2 bookSplit =
     Inr [\<lparr>pp_content = [97, 10, 98, 99], pp_chapterTitle = Some [84]\<rparr>,
          \<lparr>pp_content = [100, 101, 102], pp_chapterTitle = Some [84]\<rparr>]"
  by (simp add: paginatorCalculatePagination_def structured_bookSplit paginatorStep_def
        paginatorChapterStart_def paginatorTextBlockStep_def paginatorInitialVars_def
        paginatorSaveLastPage_def paginatorOverflowWithFit_def paginatorPlaceRemaining.simps
        paginatorFindFittingText_def search_bcdef substringFrom_def paginatorPush_def
        IDEOGRAPHIC_SPACE_def NEWLINE_def columns_def Let_def)

text \<open>
  C1. For every book and every page width, on every measuring surface that is laid out
  in columns (the empty text is no wider than any text, a single character no wider than
  any text that is not empty), the contents of the pages computed by the pagination of
  the hook, concatenated in order, reproduce the linearized text of the book: they are
  the block texts in reading order, each paragraph with its full-width space, each block
  preceded by a newline or by nothing, and nothing else. The same holds for the
  pagination of the component. The only other outcome is the error for a book without
  chapters, for which no page list is made.
\<close>

theorem calculatePagination_coverage:
  assumes "regularSurface measureTextWidth"
  shows "(case calculatePagination measureTextWidth actualMaxWidth book of
            Inl e \<Rightarrow> chapters book = []
          | Inr pages \<Rightarrow> reproduces (concat (map pd_content pages)) (linearized book))
         \<and> (case paginatorCalculatePagination measureTextWidth actualMaxWidth book of
            Inl e \<Rightarrow> chapters book = []
          | Inr pages \<Rightarrow> reproduces (concat (map pp_content pages)) (linearized book))"
proof -
  have "chapters book = []" if "calculatePagination measureTextWidth actualMaxWidth book = Inl e" for e
    using that calculatePagination_error [of measureTextWidth actualMaxWidth book] by (cases e) simp
  moreover have "chapters book = []"
    if "paginatorCalculatePagination measureTextWidth actualMaxWidth book = Inl e" for e
    using that paginatorCalculatePagination_error [of measureTextWidth actualMaxWidth book]
    by (cases e) simp
  ultimately show ?thesis
    using hook_coverage [OF assms] paginator_coverage [OF assms]
    by (auto split: sum.splits)
qed


theorem calculatePagination_coverage_witness:
  "regularSurface (columns 2)
   \<and> map pd_content (projr (calculatePagination (columns 2) 2 bookSplit))
       = [[97, 10, 98, 99], [100, 101, 102]]
   \<and> map pp_content (projr (paginatorCalculatePagination (columns 2) 2 bookSplit))
       = [[97, 10, 98, 99], [100, 101, 102]]
   \<and> linearized bookSplit = [[97], [98, 99, 100, 101, 102]]
   \<and> reproduces [97, 10, 98, 99, 100, 101, 102] (linearized bookSplit)"
proof -
  have regular: "regularSurface (columns 2)" by (rule regularSurface_columns) simp
  from calculatePagination_coverage [OF regular, where actualMaxWidth = 2 and book = bookSplit]
  have "reproduces [97, 10, 98, 99, 100, 101, 102] (linearized bookSplit)"
    by (simp add: calculatePagination_bookSplit)
  moreover have "linearized bookSplit = [[97], [98, 99, 100, 101, 102]]"
    by (simp add: linearized_def bookSplit_def indentedText_def)
  ultimately show ?thesis
    using regular by (simp add: calculatePagination_bookSplit paginatorCalculatePagination_bookSplit)
qed

subsection \<open>A surface that is not laid out in columns\<close>

lemma structured_bookLoss:
  "getStructuredBlocks bookLoss =
     [\<lparr>tb_id = ChapterMarkerId 1, tb_type = TChapter, tb_content = [], tb_chapterTitle = Some [84]\<rparr>,
      \<lparr>tb_id = BlockMarkerId 1 1, tb_type = TConversation, tb_content = [97, 98], tb_chapterTitle = Some [84]\<rparr>,
      \<lparr>tb_id = BlockMarkerId 1 2, tb_type = TConversation, tb_content = [99, 87], tb_chapterTitle = Some [84]\<rparr>]"
  by (simp add: getStructuredBlocks_def bookLoss_def chapterBlocks_def textBlockType_def)

lemma fit_cW: "findFittingText wideW [99, 87] 5 [97, 98] [10] = [99]"
  by (simp add: findFittingText_def binarySearchPrefix_def binarySearchLoop.simps Let_def
        substring_def wideW_def kinsokuAdjust_def kinsokuFollower_def)

lemma fit_W: "findFittingText wideW [87] 5 [] [] = []"
  by (simp add: findFittingText_def binarySearchPrefix_def binarySearchLoop.simps Let_def
        substring_def wideW_def kinsokuAdjust_def kinsokuFollower_def)

lemma calculatePagination_bookLoss:
  "calculatePagination wideW 5 bookLoss =
     Inr [\<lparr>pd_content = [97, 98, 10, 99], chapterTitle = Some [84],
           isChapterStart = None, isChapterEnd = None,
           metadata = Some \<lparr>md_chapterId = 1, md_blockIds = [1, 2], startBlockId = Some 1,
                            endBlockId = Some 2, endBlockCharacterOffset = Some 1,
                            characterRange = Some (0, 3)\<rparr>\<rparr>]"
  by (simp add: calculatePagination_def structured_bookLoss paginateBlocks_def
        paginationStep_def chapterStart_def textBlockStep_def placeBlock_def rememberBlockText_def
        trackBlockId_def initialVars_def saveLastPage_def overflowWithFit_def
        placeRemaining.simps fit_cW fit_W substringFrom_def withoutIndent_def
        pushPage_def pushChapterEndPage_def enrichPageWithMetadata_def orElse_def
        originalBlockText_def headOption_def lastOption_def IDEOGRAPHIC_SPACE_def NEWLINE_def
        wideW_def Let_def)

text \<open>
  The condition on the surface is used. On a surface where the single character \<open>W\<close> is
  wider than the longer text \<open>ab\<close>, newline, \<open>c\<close>, a page 5 units wide takes \<open>ab\<close>, the
  newline and \<open>c\<close>; the remainder \<open>W\<close> is wider than an empty page, the loop that follows
  a partial fit is left through its last \<open>break\<close>, and \<open>W\<close> is on no page. A text cannot
  take fewer columns than one of its characters, so no box laid out in columns measures
  like this.
\<close>

lemma remainder_dropped_on_irregular_surface:
  "\<not> regularSurface wideW
   \<and> map pd_content (projr (calculatePagination wideW 5 bookLoss)) = [[97, 98, 10, 99]]
   \<and> linearized bookLoss = [[97, 98], [99, 87]]"
proof -
  have "\<not> wideW [87] \<le> wideW [97, 98, 10, 99]" by (simp add: wideW_def)
  then have "\<not> regularSurface wideW" unfolding regularSurface_def by blast
  then show ?thesis
    by (simp add: calculatePagination_bookLoss)
       (simp add: linearized_def bookLoss_def indentedText_def)
qed

section \<open>Properties of DOMPaginationCalculator\<close>

subsection \<open>The binary search of findOptimalBreakPoint\<close>

text \<open>
  The search of \<open>findOptimalBreakPoint\<close> is the search of \<open>findFittingText\<close> with an empty
  page content and an empty separator, the overflow flag of the measurement taking the
  place of the comparison of the width with the page width: it finds the length of the
  prefix that \<open>binarySearchPrefix\<close> finds.
\<close>

lemma optimalLoop_search:
  assumes "0 \<le> left" and "right \<le> int (length t)" and "bestFit = int (length result)"
  shows "optimalLoop overflow t left right bestFit
         = int (length (binarySearchLoop overflow False t [] [] left right result))"
  using assms
proof (induction "nat (right - left + 1)" arbitrary: left right bestFit result rule: less_induct)
  case less
  show ?case
  proof (cases "left \<le> right")
    case False
    then show ?thesis using less.prems
      by (subst optimalLoop.simps, subst binarySearchLoop.simps) simp
  next
    case True
    define mid where "mid = (left + right) div 2"
    have mid: "left \<le> mid" "mid \<le> right" using True by (simp_all add: mid_def)
    let ?test = "substring t 0 (nat mid)"
    have len: "int (length ?test) = mid"
      using mid less.prems(1,2) by (simp add: substring_def)
    show ?thesis
    proof (cases "overflow ?test")
      case nofit: True
      have s1: "optimalLoop overflow t left right bestFit = optimalLoop overflow t left (mid - 1) bestFit"
        using True nofit by (subst optimalLoop.simps) (simp add: Let_def mid_def)
      have s2: "binarySearchLoop overflow False t [] [] left right result
                = binarySearchLoop overflow False t [] [] left (mid - 1) result"
        using True nofit by (subst binarySearchLoop.simps) (simp add: Let_def mid_def)
      have dec: "nat ((mid - 1) - left + 1) < nat (right - left + 1)" using mid True by simp
      have "mid - 1 \<le> int (length t)" using mid less.prems(2) by simp
      from less.hyps [OF dec less.prems(1) this less.prems(3)] show ?thesis unfolding s1 s2 .
    next
      case fit: False
      have s1: "optimalLoop overflow t left right bestFit = optimalLoop overflow t (mid + 1) right mid"
        using True fit by (subst optimalLoop.simps) (simp add: Let_def mid_def)
      have s2: "binarySearchLoop overflow False t [] [] left right result
                = binarySearchLoop overflow False t [] [] (mid + 1) right ?test"
        using True fit by (subst binarySearchLoop.simps) (simp add: Let_def mid_def)
      have dec: "nat (right - (mid + 1) + 1) < nat (right - left + 1)" using mid True by simp
      have "0 \<le> mid + 1" using mid less.prems(1) by simp
      from less.hyps [OF dec this less.prems(2) len [symmetric]] show ?thesis unfolding s1 s2 .
    qed
  qed
qed

lemma findOptimalBreakPoint_search:
  "t \<noteq> [] \<Longrightarrow> findOptimalBreakPoint overflow t
     = applyKinsoku overflow t (int (length (binarySearchPrefix overflow t False [] [])))"
  using optimalLoop_search [of 0 "int (length t)" t 0 "[]" overflow]
  by (simp add: findOptimalBreakPoint_def binarySearchPrefix_def)

subsection \<open>The kinsoku adjustments\<close>

lemma safeBefore_step:
  "0 < n \<Longrightarrow> safeBefore overflow t n =
     (if \<not> includesChar kinsokuStart (t ! n) \<and> \<not> overflow (substring t 0 n)
      then Some n else safeBefore overflow t (n - 1))"
  by (cases n) simp_all

lemma safeBefore_Some:
  "safeBefore overflow t n = Some i
   \<Longrightarrow> 0 < i \<and> i \<le> n \<and> \<not> includesChar kinsokuStart (t ! i) \<and> \<not> overflow (substring t 0 i)
       \<and> (\<forall>j. i < j \<and> j \<le> n \<longrightarrow> includesChar kinsokuStart (t ! j) \<or> overflow (substring t 0 j))"
proof (induction n)
  case 0
  then show ?case by simp
next
  case (Suc n)
  show ?case
  proof (cases "\<not> includesChar kinsokuStart (t ! Suc n) \<and> \<not> overflow (substring t 0 (Suc n))")
    case True
    with Suc.prems show ?thesis by auto
  next
    case False
    with Suc.prems have "safeBefore overflow t n = Some i" by auto
    from Suc.IH [OF this] False show ?thesis by (auto simp: le_Suc_eq)
  qed
qed

lemma safeBefore_None:
  "safeBefore overflow t n = None
   \<longleftrightarrow> (\<forall>j. 0 < j \<and> j \<le> n \<longrightarrow> includesChar kinsokuStart (t ! j) \<or> overflow (substring t 0 j))"
proof (induction n)
  case 0
  then show ?case by simp
next
  case (Suc n)
  then show ?case by (auto simp: le_Suc_eq)
qed

text \<open>
  What the kinsoku adjustment of \<open>DOMPaginationCalculator\<close> does with a break point that is
  followed by one of the 26 characters: it moves the break point back to the nearest
  position, not the start of the text, that is followed by none of these characters and
  whose prefix does not overflow. The page that follows then starts with a character
  that may start a line.
\<close>

lemma applyKinsoku_moves_back:
  assumes "0 < pos" and "pos < int (length t)"
    and "includesChar kinsokuStart (t ! nat pos)"
    and "safeBefore overflow t (nat (pos - 1)) = Some i"
  shows "applyKinsoku overflow t pos = int i \<and> 0 < i \<and> int i < pos
         \<and> \<not> includesChar kinsokuStart (t ! i) \<and> \<not> overflow (substring t 0 i)
         \<and> (\<forall>j. i < j \<and> int j < pos
                \<longrightarrow> includesChar kinsokuStart (t ! j) \<or> overflow (substring t 0 j))"
proof -
  have "applyKinsoku overflow t pos = int i"
    using assms by (simp add: applyKinsoku_def Let_def)
  moreover from safeBefore_Some [OF assms(4)] assms(1)
  have "0 < i \<and> int i < pos \<and> \<not> includesChar kinsokuStart (t ! i) \<and> \<not> overflow (substring t 0 i)
        \<and> (\<forall>j. i < j \<and> int j < pos
                \<longrightarrow> includesChar kinsokuStart (t ! j) \<or> overflow (substring t 0 j))"
    by auto
  ultimately show ?thesis by simp
qed

lemma search_marks: "binarySearchPrefix (columns 4) marksText 1 [] [] = [97, 98, 99, 12290]"
  by (simp add: binarySearchPrefix_def binarySearchLoop.simps Let_def substring_def columns_def
        marksText_def NEWLINE_def)

lemma fit_marks: "findFittingText (columns 4) marksText 1 [] [] = [97, 98, 99]"
  by (simp add: findFittingText_def binarySearchPrefix_def binarySearchLoop.simps Let_def
        substring_def columns_def marksText_def NEWLINE_def kinsokuAdjust_def kinsokuFollower_def)

lemma break_marks: "findOptimalBreakPoint fourCharacters marksText = 2"
  by (simp add: findOptimalBreakPoint_def optimalLoop.simps applyKinsoku_def Let_def
        substring_def fourCharacters_def columns_def marksText_def NEWLINE_def includesChar_def
        kinsokuStart_def kinsokuEnd_def safeBefore_step)

text \<open>
  C4 at a failing input. The page is one column of four characters and the text is
  \<open>abc\<close>, a full stop U+3002, a closing bracket U+300D and \<open>d\<close>. The fitting search of the
  hook finds the break point 4, which is followed by the closing bracket. The hook
  returns the break point 3: one character back, not enough, since the page that follows
  starts with the full stop, itself one of the characters of the test. On the same text
  and page \<open>findOptimalBreakPoint\<close> of \<open>DOMPaginationCalculator\<close> goes back over both
  marks to the break point 2, and the page that follows starts with \<open>c\<close>.
\<close>

theorem kinsoku_run_starts_next_page:
  "binarySearchPrefix (columns 4) marksText 1 [] [] = [97, 98, 99, 12290]
   \<and> kinsokuFollower (marksText ! 4)
   \<and> findFittingText (columns 4) marksText 1 [] [] = [97, 98, 99]
   \<and> substringFrom marksText (length (findFittingText (columns 4) marksText 1 [] []))
       = [12290, 12301, 100]
   \<and> kinsokuFollower 12290
   \<and> findOptimalBreakPoint fourCharacters marksText = 2
   \<and> substringFrom marksText (nat (findOptimalBreakPoint fourCharacters marksText))
       = [99, 12290, 12301, 100]
   \<and> \<not> includesChar kinsokuStart 99"
  using search_marks fit_marks break_marks
  by (simp add: marksText_def substringFrom_def kinsokuFollower_def includesChar_def kinsokuStart_def)

text \<open>
  The rule of \<open>applyKinsoku\<close> for opening brackets can leave no character on the page:
  on a page of one character the text U+300C, U+3002, \<open>x\<close> gets the break point 0, and
  \<open>processChapter\<close> then forces one character onto the page.
\<close>

lemma break_open_bracket: "findOptimalBreakPoint oneCharacter [12300, 12290, 120] = 0"
  by (simp add: findOptimalBreakPoint_def optimalLoop.simps applyKinsoku_def Let_def
        substring_def oneCharacter_def columns_def NEWLINE_def includesChar_def
        kinsokuStart_def kinsokuEnd_def safeBefore_step safeAfter.simps)


subsection \<open>The loop of processChapter\<close>

text \<open>
  A round that starts at the first character of a paragraph of which only the indent
  fits: \<open>addedChars\<close> is 1 and \<open>originalAddedChars\<close> is 0, the page gets the indent and
  one character, the character offset is advanced by 0 and the page is closed. The next
  round starts where this one started.
\<close>

lemma fillPage_stuck:
  assumes "bi < length (blocks ch)"
    and "block_type (blocks ch ! bi) = Paragraph"
    and "block_text (blocks ch ! bi) \<noteq> []"
    and "findOptimalBreakPoint overflow (IDEOGRAPHIC_SPACE # block_text (blocks ch ! bi)) = 1"
  shows "fillPage overflow ch
           \<lparr>currentBlockIndex = bi, currentCharOffset = 0,
            pageContent = [], pageBreakPoints = [], remainingSpace = True\<rparr>
         = \<lparr>currentBlockIndex = bi, currentCharOffset = 0,
            pageContent = [IDEOGRAPHIC_SPACE # substring (block_text (blocks ch ! bi)) 0 1],
            pageBreakPoints = [\<lparr>bp_chapterId = chapter_id ch, bp_blockId = block_id (blocks ch ! bi),
                                bp_characterStart = 0, bp_characterEnd = 0\<rparr>],
            remainingSpace = False\<rparr>"
proof -
  let ?s = "\<lparr>currentBlockIndex = bi, currentCharOffset = 0,
            pageContent = [], pageBreakPoints = [], remainingSpace = True\<rparr>"
  have step: "fillStep overflow ch ?s
         = \<lparr>currentBlockIndex = bi, currentCharOffset = 0,
            pageContent = [IDEOGRAPHIC_SPACE # substring (block_text (blocks ch ! bi)) 0 1],
            pageBreakPoints = [\<lparr>bp_chapterId = chapter_id ch, bp_blockId = block_id (blocks ch ! bi),
                                bp_characterStart = 0, bp_characterEnd = 0\<rparr>],
            remainingSpace = False\<rparr>"
    using assms
    by (simp add: fillStep_def addPartially_def forceOneCharacter_def Let_def substringFrom_def)
  show ?thesis
    using assms(1)
    by (subst fillPage.simps, simp add: step) (subst fillPage.simps, simp)
qed

lemma pageRound_stuck:
  assumes "pc_blockIndex st < length (blocks ch)"
    and "block_type (blocks ch ! pc_blockIndex st) = Paragraph"
    and "block_text (blocks ch ! pc_blockIndex st) \<noteq> []"
    and "findOptimalBreakPoint overflow (IDEOGRAPHIC_SPACE # block_text (blocks ch ! pc_blockIndex st)) = 1"
    and "pc_charOffset st = 0"
  shows "pc_blockIndex (pageRound overflow ch st) = pc_blockIndex st
         \<and> pc_charOffset (pageRound overflow ch st) = 0
         \<and> length (chapterPages (pageRound overflow ch st)) = Suc (length (chapterPages st))"
  using assms fillPage_stuck [OF assms(1-4)]
  by (simp add: pageRound_def Let_def)

lemma indentOnly_pageRound:
  assumes "indentOnly overflow ch st"
  shows "indentOnly overflow ch (pageRound overflow ch st)"
  using assms pageRound_stuck [of st ch overflow] by (simp add: indentOnly_def)

lemma processChapterLoop_returns:
  assumes "processChapterLoop overflow ch st = Some pages"
  shows "\<not> indentOnly overflow ch st"
proof (rule processChapterLoop.raw_induct
         [where P = "\<lambda>ov c s y. \<not> indentOnly ov c s", OF _ assms])
  fix loop :: "(jsstring \<Rightarrow> bool) \<Rightarrow> Chapter \<Rightarrow> ChapterState \<Rightarrow> Page list option"
    and ov c s y
  assume IH: "\<And>ov c s y. loop ov c s = Some y \<Longrightarrow> \<not> indentOnly ov c s"
    and body: "(if pc_blockIndex s < length (blocks c) then loop ov c (pageRound ov c s)
                else Some (chapterPages s)) = Some y"
  show "\<not> indentOnly ov c s"
  proof
    assume stuck: "indentOnly ov c s"
    then have "pc_blockIndex s < length (blocks c)" by (simp add: indentOnly_def)
    with body have "loop ov c (pageRound ov c s) = Some y" by simp
    from IH [OF this] indentOnly_pageRound [OF stuck] show False by simp
  qed
qed

lemma processChapterLoop_indentOnly:
  "indentOnly overflow ch st \<Longrightarrow> processChapterLoop overflow ch st = None"
  using processChapterLoop_returns [of overflow ch st] by (cases "processChapterLoop overflow ch st") auto

lemma break_run:
  "findOptimalBreakPoint fourCharacters [12288, 12354, 12540, 12540, 12540, 12540] = 1"
  by (simp add: findOptimalBreakPoint_def optimalLoop.simps applyKinsoku_def Let_def
        substring_def fourCharacters_def columns_def NEWLINE_def includesChar_def kinsokuStart_def
        kinsokuEnd_def safeBefore_step)

text \<open>
  The loop does return for other inputs: on the page of four characters the conversation
  block \<open>abcdef\<close> makes the pages \<open>abcd\<close> and \<open>ef\<close>.
\<close>

lemma processChapter_chapterShort:
  "processChapter fourCharacters chapterShort 1 =
     Some [\<lparr>page_id = 1,
            position = \<lparr>pos_chapterId = 1, pos_blockId = 1, characterStart = 0, characterEnd = 4\<rparr>,
            page_content = [[97, 98, 99, 100]], page_totalCharacters = 4\<rparr>,
           \<lparr>page_id = 2,
            position = \<lparr>pos_chapterId = 1, pos_blockId = 1, characterStart = 4, characterEnd = 6\<rparr>,
            page_content = [[101, 102]], page_totalCharacters = 2\<rparr>]"
  by (simp add: processChapter_def processChapterLoop.simps pageRound_def fillPage.simps fillStep_def
      addPartially_def forceOneCharacter_def createPage_def headOption_def lastOption_def
      chapterShort_def findOptimalBreakPoint_def optimalLoop.simps applyKinsoku_def Let_def
      substring_def substringFrom_def fourCharacters_def columns_def NEWLINE_def includesChar_def
      kinsokuStart_def kinsokuEnd_def safeBefore_step)


lemma pageRound_chapterRun:
  "pageRound fourCharacters chapterRun
     \<lparr>chapterPages = [], pc_pageId = 1, pc_blockIndex = 0, pc_charOffset = 0\<rparr>
   = \<lparr>chapterPages =
        [\<lparr>page_id = 1,
          position = \<lparr>pos_chapterId = 1, pos_blockId = 1, characterStart = 0, characterEnd = 0\<rparr>,
          page_content = [[12288, 12354]], page_totalCharacters = 2\<rparr>],
      pc_pageId = 2, pc_blockIndex = 0, pc_charOffset = 0\<rparr>"
proof -
  have "fillPage fourCharacters chapterRun
          \<lparr>currentBlockIndex = 0, currentCharOffset = 0,
           pageContent = [], pageBreakPoints = [], remainingSpace = True\<rparr>
        = \<lparr>currentBlockIndex = 0, currentCharOffset = 0,
           pageContent = [[12288, 12354]],
           pageBreakPoints = [\<lparr>bp_chapterId = 1, bp_blockId = 1,
                               bp_characterStart = 0, bp_characterEnd = 0\<rparr>],
           remainingSpace = False\<rparr>"
    using fillPage_stuck [of 0 chapterRun fourCharacters] break_run
    by (simp add: chapterRun_def IDEOGRAPHIC_SPACE_def substring_def)
  then show ?thesis
    by (simp add: pageRound_def createPage_def headOption_def lastOption_def Let_def chapterRun_def)
qed

text \<open>
  C6 at a failing input. The page is one column of four characters; the chapter has one
  paragraph, U+3042 followed by four long vowel marks U+30FC. The binary search fits the
  indent and three characters, the kinsoku adjustment goes back over the long vowel
  marks to the break point 1, and the round of \<open>processChapter\<close> pushes a page with the
  indent and U+3042 while the block index and the character offset stay 0: the round
  consumes no character. Every round is this round, and \<open>processChapter\<close> does not
  return.
\<close>

theorem processChapter_does_not_return:
  "findOptimalBreakPoint fourCharacters (IDEOGRAPHIC_SPACE # block_text (blocks chapterRun ! 0)) = 1
   \<and> pageRound fourCharacters chapterRun
        \<lparr>chapterPages = [], pc_pageId = 1, pc_blockIndex = 0, pc_charOffset = 0\<rparr>
      = \<lparr>chapterPages =
           [\<lparr>page_id = 1,
             position = \<lparr>pos_chapterId = 1, pos_blockId = 1, characterStart = 0, characterEnd = 0\<rparr>,
             page_content = [[12288, 12354]], page_totalCharacters = 2\<rparr>],
         pc_pageId = 2, pc_blockIndex = 0, pc_charOffset = 0\<rparr>
   \<and> processChapter fourCharacters chapterRun 1 = None"
proof -
  have b: "findOptimalBreakPoint fourCharacters (IDEOGRAPHIC_SPACE # block_text (blocks chapterRun ! 0)) = 1"
    using break_run by (simp add: chapterRun_def IDEOGRAPHIC_SPACE_def)
  have "processChapter fourCharacters chapterRun 1 = None"
    unfolding processChapter_def
    by (rule processChapterLoop_indentOnly)
       (simp add: indentOnly_def chapterRun_def break_run IDEOGRAPHIC_SPACE_def)
  with b pageRound_chapterRun show ?thesis by simp
qed

end
